theory Spec2Isabelle
  imports
    Complex_Main
    "HOL-Library.Sublist"
    "HOL-Library.Multiset"
    "HOL-Library.Product_Lexorder"
    "HOL-Library.Log_Nat"
begin

chapter \<open>The program\<close>

section \<open>Python strings\<close>

text \<open>
  A Python \<open>str\<close> is a sequence of Unicode code points; \<open>len\<close> counts code points.
  A text is therefore a list of code points (the integers \<open>ord\<close> gives), and \<open>ustr\<close>
  turns an ASCII literal into one.

  Timestamps and similarity scores are Python floats in the source; they are modelled as
  exact rationals. \<open>int\<close> raises on \<open>nan\<close> and \<open>inf\<close>, so the merge only completes on
  finite timestamps, and every finite float is a rational. A quotient such as
  \<open>frame_count / fps\<close> is the exact quotient here, where Python rounds it to the nearest
  float. A similarity score is a quotient \<open>2.0 * M / T\<close> of integers; comparing two such
  floats, or one of them with the float \<open>0.3\<close> or \<open>0.7\<close>, gives the same answer as
  comparing the exact quotients as long as the texts have fewer than \<open>10^7\<close> characters.
\<close>

type_synonym ustr = "int list"

definition ustr :: "string \<Rightarrow> ustr" where
  "ustr s = map of_char s"

text \<open>The code points that \<open>str.strip()\<close> removes (those with \<open>str.isspace()\<close> true).\<close>

definition is_space :: "int \<Rightarrow> bool" where
  "is_space c \<longleftrightarrow>
     (9 \<le> c \<and> c \<le> 13) \<or> (28 \<le> c \<and> c \<le> 32) \<or> c = 133 \<or> c = 160 \<or> c = 5760
     \<or> (8192 \<le> c \<and> c \<le> 8202) \<or> c = 8232 \<or> c = 8233 \<or> c = 8239 \<or> c = 8287
     \<or> c = 12288"

text \<open>\<open>s.strip(chars)\<close>: drop from both ends while the code point is in the given set.\<close>

definition strip_by :: "(int \<Rightarrow> bool) \<Rightarrow> ustr \<Rightarrow> ustr" where
  "strip_by P s = rev (dropWhile P (rev (dropWhile P s)))"

definition strip :: "ustr \<Rightarrow> ustr" where
  "strip s = strip_by is_space s"

text \<open>\<open>sub in s\<close> on strings: \<open>sub\<close> occurs as a contiguous slice of \<open>s\<close>.\<close>

fun contains :: "ustr \<Rightarrow> ustr \<Rightarrow> bool" where
  "contains sub [] = (sub = [])"
| "contains sub (c # cs) = (prefix sub (c # cs) \<or> contains sub cs)"

text \<open>
  \<open>s.replace(old, "")\<close> for a non-empty \<open>old\<close>: scan left to right and delete each
  non-overlapping occurrence.
\<close>

function remove_all :: "ustr \<Rightarrow> ustr \<Rightarrow> ustr" where
  "remove_all old [] = []"
| "remove_all old (c # cs) =
     (if old \<noteq> [] \<and> prefix old (c # cs)
      then remove_all old (drop (length old) (c # cs))
      else c # remove_all old cs)"
  by pat_completeness auto
termination
  by (relation "measure (\<lambda>(old, s). length s)") (auto simp: neq_Nil_conv)

section \<open>Python floats\<close>

text \<open>
  A Python float is an IEEE 754 binary64 number. An arithmetic operation on floats gives
  the float nearest to the exact result, a tie going to the neighbour with an even
  significand; \<open>round_double\<close> is this rounding on the rationals. The floats have 53
  significant bits, so the floats between \<open>2^e\<close> and \<open>2^(e+1)\<close> are the multiples of
  \<open>2^(e-52)\<close>, down to the exponent \<open>-1022\<close>, below which the spacing stays
  \<open>2^(-1074)\<close>. A rational is a float when rounding leaves it unchanged. Results beyond
  the largest float (overflow to infinity) are outside the model, as \<open>nan\<close> and
  \<open>inf\<close> are.

  \<open>ilog2 x\<close> is the integer \<open>e\<close> with \<open>2^e \<le> x < 2^(e+1)\<close>, for positive \<open>x\<close>.
\<close>

definition ilog2 :: "rat \<Rightarrow> int" where
  "ilog2 x =
     (case quotient_of x of (p, q) \<Rightarrow>
        let c = bitlen p - bitlen q in if 2 powi c \<le> x then c else c - 1)"

definition round_half_even :: "rat \<Rightarrow> int" where
  "round_half_even r =
     (let f = \<lfloor>r\<rfloor>; d = r - of_int f
      in if d < 1 / 2 then f else if d > 1 / 2 then f + 1 else if even f then f else f + 1)"

definition quantum :: "rat \<Rightarrow> rat" where
  "quantum x = 2 powi (max (ilog2 \<bar>x\<bar>) (- 1022) - 52)"

definition round_double :: "rat \<Rightarrow> rat" where
  "round_double x = (if x = 0 then 0 else of_int (round_half_even (x / quantum x)) * quantum x)"

definition is_double :: "rat \<Rightarrow> bool" where
  "is_double x \<longleftrightarrow> round_double x = x"

section \<open>The similarity score: \<open>difflib.SequenceMatcher(None, a, b).ratio()\<close>\<close>

text \<open>
  \<open>similar\<close> (smart\_subtitle.py, line 11) returns \<open>SequenceMatcher(None, a, b).ratio()\<close>.
  The definitions below follow CPython's \<open>difflib\<close> with \<open>isjunk = None\<close> and
  \<open>autojunk = True\<close>, the arguments the source passes.

  \<open>b2j\<close> maps each element of \<open>b\<close> to the increasing list of its positions; with
  \<open>autojunk\<close> and \<open>len(b) >= 200\<close> the elements occurring more than \<open>len(b) // 100 + 1\<close>
  times are deleted from it.
\<close>

definition b2j_get :: "ustr \<Rightarrow> int \<Rightarrow> nat list" where
  "b2j_get b elt =
     (let idxs = filter (\<lambda>j. b ! j = elt) [0..<length b]; n = length b
      in if n \<ge> 200 \<and> length idxs > n div 100 + 1 then [] else idxs)"

text \<open>\<open>j2len.get(j - 1, 0)\<close>; for \<open>j = 0\<close> the key is \<open>-1\<close>, which is never present.\<close>

definition j2lenget :: "(nat \<rightharpoonup> nat) \<Rightarrow> nat \<Rightarrow> nat" where
  "j2lenget j2len j =
     (if j = 0 then 0 else case j2len (j - 1) of None \<Rightarrow> 0 | Some k \<Rightarrow> k)"

text \<open>
  The inner loop of \<open>find_longest_match\<close> over the positions \<open>j\<close> of \<open>a[i]\<close> in \<open>b\<close>.
  The state is \<open>(newj2len, besti, bestj, bestsize)\<close>.
\<close>

type_synonym flm_state = "(nat \<rightharpoonup> nat) \<times> nat \<times> nat \<times> nat"

fun flm_inner :: "(nat \<rightharpoonup> nat) \<Rightarrow> nat \<Rightarrow> nat \<Rightarrow> nat \<Rightarrow> nat list \<Rightarrow> flm_state \<Rightarrow> flm_state" where
  "flm_inner j2len i blo bhi [] st = st"
| "flm_inner j2len i blo bhi (j # js) (newj2len, besti, bestj, bestsize) =
     (if j < blo then flm_inner j2len i blo bhi js (newj2len, besti, bestj, bestsize)
      else if j \<ge> bhi then (newj2len, besti, bestj, bestsize)
      else
        let k = j2lenget j2len j + 1 in
        if k > bestsize
        then flm_inner j2len i blo bhi js (newj2len(j \<mapsto> k), i + 1 - k, j + 1 - k, k)
        else flm_inner j2len i blo bhi js (newj2len(j \<mapsto> k), besti, bestj, bestsize))"

text \<open>The outer loop \<open>for i in range(alo, ahi)\<close>; the state carries \<open>j2len\<close>.\<close>

fun flm_outer :: "ustr \<Rightarrow> ustr \<Rightarrow> nat \<Rightarrow> nat \<Rightarrow> nat list \<Rightarrow> flm_state \<Rightarrow> flm_state" where
  "flm_outer a b blo bhi [] st = st"
| "flm_outer a b blo bhi (i # is) (j2len, besti, bestj, bestsize) =
     flm_outer a b blo bhi is
       (flm_inner j2len i blo bhi (b2j_get b (a ! i)) (Map.empty, besti, bestj, bestsize))"

text \<open>
  The two extension loops. With \<open>isjunk = None\<close> the junk set is empty, so
  \<open>isbjunk\<close> is always false: the first pair of loops extends over equal elements and the
  second pair (junk on both sides) never runs.
\<close>

function extend_left :: "ustr \<Rightarrow> ustr \<Rightarrow> nat \<Rightarrow> nat \<Rightarrow> nat \<times> nat \<times> nat \<Rightarrow> nat \<times> nat \<times> nat" where
  "extend_left a b alo blo (besti, bestj, bestsize) =
     (if besti > alo \<and> bestj > blo \<and> a ! (besti - 1) = b ! (bestj - 1)
      then extend_left a b alo blo (besti - 1, bestj - 1, bestsize + 1)
      else (besti, bestj, bestsize))"
  by pat_completeness auto
termination
  by (relation "measure (\<lambda>(a, b, alo, blo, besti, bestj, bestsize). besti)") auto

function extend_right :: "ustr \<Rightarrow> ustr \<Rightarrow> nat \<Rightarrow> nat \<Rightarrow> nat \<times> nat \<times> nat \<Rightarrow> nat \<times> nat \<times> nat" where
  "extend_right a b ahi bhi (besti, bestj, bestsize) =
     (if besti + bestsize < ahi \<and> bestj + bestsize < bhi
         \<and> a ! (besti + bestsize) = b ! (bestj + bestsize)
      then extend_right a b ahi bhi (besti, bestj, bestsize + 1)
      else (besti, bestj, bestsize))"
  by pat_completeness auto
termination
  by (relation "measure (\<lambda>(a, b, ahi, bhi, besti, bestj, bestsize). ahi - (besti + bestsize))")
     auto

definition find_longest_match :: "ustr \<Rightarrow> ustr \<Rightarrow> nat \<Rightarrow> nat \<Rightarrow> nat \<Rightarrow> nat \<Rightarrow> nat \<times> nat \<times> nat" where
  "find_longest_match a b alo ahi blo bhi =
     (case flm_outer a b blo bhi [alo..<ahi] (Map.empty, alo, blo, 0) of
        (j2len, besti, bestj, bestsize) \<Rightarrow>
          extend_right a b ahi bhi (extend_left a b alo blo (besti, bestj, bestsize)))"

text \<open>
  Bounds on the result: the block lies inside the window it was searched in. They make
  \<open>i - k + 1\<close> and \<open>j - k + 1\<close> of the source non-negative, and they are what the
  worklist of \<open>get_matching_blocks\<close> needs to terminate.
\<close>

definition j2len_inv :: "nat \<Rightarrow> nat \<Rightarrow> nat \<Rightarrow> (nat \<rightharpoonup> nat) \<Rightarrow> bool" where
  "j2len_inv alo blo i j2len \<longleftrightarrow>
     (\<forall>j k. j2len j = Some k \<longrightarrow> 1 \<le> k \<and> k + alo \<le> i \<and> k + blo \<le> j + 1)"

definition best_inv :: "nat \<Rightarrow> nat \<Rightarrow> nat \<Rightarrow> nat \<Rightarrow> nat \<times> nat \<times> nat \<Rightarrow> bool" where
  "best_inv alo ahi blo bhi best \<longleftrightarrow>
     (case best of (besti, bestj, bestsize) \<Rightarrow>
        alo \<le> besti \<and> blo \<le> bestj \<and>
        (if bestsize = 0 then besti = alo \<and> bestj = blo
         else besti + bestsize \<le> ahi \<and> bestj + bestsize \<le> bhi))"

lemma j2lenget_le:
  assumes "j2len_inv alo blo i j2len" "blo \<le> j"
  shows "j2lenget j2len j + alo \<le> i \<or> j2lenget j2len j = 0"
    and "j2lenget j2len j + blo \<le> j"
proof -
  have "(j2lenget j2len j + alo \<le> i \<or> j2lenget j2len j = 0) \<and> j2lenget j2len j + blo \<le> j"
  proof (cases "j = 0")
    case True
    with assms(2) show ?thesis by (simp add: j2lenget_def)
  next
    case False
    show ?thesis
    proof (cases "j2len (j - 1)")
      case None
      with False assms(2) show ?thesis by (simp add: j2lenget_def)
    next
      case (Some k)
      with assms(1) have "k + alo \<le> i" "k + blo \<le> (j - 1) + 1"
        unfolding j2len_inv_def by blast+
      with False Some show ?thesis by (simp add: j2lenget_def)
    qed
  qed
  then show "j2lenget j2len j + alo \<le> i \<or> j2lenget j2len j = 0"
    and "j2lenget j2len j + blo \<le> j" by simp_all
qed

lemma flm_inner_inv:
  assumes "j2len_inv alo blo i j2len" "alo \<le> i" "i < ahi"
    and "j2len_inv alo blo (Suc i) newj2len" "best_inv alo ahi blo bhi (besti, bestj, bestsize)"
    and "flm_inner j2len i blo bhi js (newj2len, besti, bestj, bestsize) = (m', best')"
  shows "j2len_inv alo blo (Suc i) m' \<and> best_inv alo ahi blo bhi best'"
  using assms
proof (induction js arbitrary: newj2len besti bestj bestsize)
  case Nil
  then show ?case by simp
next
  case (Cons j js)
  show ?case
  proof (cases "j < blo")
    case True
    with Cons.prems(6)
    have "flm_inner j2len i blo bhi js (newj2len, besti, bestj, bestsize) = (m', best')"
      by simp
    from Cons.IH[OF Cons.prems(1-5) this] show ?thesis .
  next
    case lo: False
    show ?thesis
    proof (cases "j \<ge> bhi")
      case True
      with lo Cons.prems(6) have "m' = newj2len" "best' = (besti, bestj, bestsize)"
        by simp_all
      with Cons.prems(4,5) show ?thesis by simp
    next
      case hi: False
      define k where "k = j2lenget j2len j + 1"
      from lo have blo: "blo \<le> j" by simp
      have k1: "k + alo \<le> Suc i"
        using j2lenget_le(1)[OF Cons.prems(1) blo] Cons.prems(2) by (auto simp: k_def)
      have k2: "k + blo \<le> j + 1"
        using j2lenget_le(2)[OF Cons.prems(1) blo] by (simp add: k_def)
      have k0: "1 \<le> k" by (simp add: k_def)
      have new: "j2len_inv alo blo (Suc i) (newj2len(j \<mapsto> k))"
        unfolding j2len_inv_def
      proof (intro allI impI)
        fix j' k' assume h: "(newj2len(j \<mapsto> k)) j' = Some k'"
        show "1 \<le> k' \<and> k' + alo \<le> Suc i \<and> k' + blo \<le> j' + 1"
        proof (cases "j' = j")
          case True
          with h k0 k1 k2 show ?thesis by simp
        next
          case False
          with h have "newj2len j' = Some k'" by simp
          with Cons.prems(4) show ?thesis unfolding j2len_inv_def by blast
        qed
      qed
      show ?thesis
      proof (cases "k > bestsize")
        case True
        have b: "best_inv alo ahi blo bhi (i + 1 - k, j + 1 - k, k)"
          using k1 k2 hi Cons.prems(3) unfolding best_inv_def by (auto simp: k_def)
        have "flm_inner j2len i blo bhi js (newj2len(j \<mapsto> k), i + 1 - k, j + 1 - k, k) = (m', best')"
          using Cons.prems(6) lo hi True by (simp add: k_def Let_def)
        from Cons.IH[OF Cons.prems(1-3) new b this] show ?thesis .
      next
        case False
        have "flm_inner j2len i blo bhi js (newj2len(j \<mapsto> k), besti, bestj, bestsize) = (m', best')"
          using Cons.prems(6) lo hi False by (simp add: k_def Let_def)
        from Cons.IH[OF Cons.prems(1-3) new Cons.prems(5) this] show ?thesis .
      qed
    qed
  qed
qed

lemma flm_outer_inv:
  assumes "j2len_inv alo blo i0 j2len" "best_inv alo ahi blo bhi best" "alo \<le> i0"
    and "flm_outer a b blo bhi [i0..<ahi] (j2len, best) = (m', best')"
  shows "best_inv alo ahi blo bhi best'"
  using assms
proof (induction "ahi - i0" arbitrary: i0 j2len best)
  case 0
  then show ?case by simp
next
  case (Suc n)
  then have lt: "i0 < ahi" by simp
  obtain besti bestj bestsize where best: "best = (besti, bestj, bestsize)"
    by (cases best) auto
  obtain m1 best1 where
    inner: "flm_inner j2len i0 blo bhi (b2j_get b (a ! i0)) (Map.empty, besti, bestj, bestsize) = (m1, best1)"
    by (cases "flm_inner j2len i0 blo bhi (b2j_get b (a ! i0)) (Map.empty, besti, bestj, bestsize)") auto
  have e: "j2len_inv alo blo (Suc i0) Map.empty" by (simp add: j2len_inv_def)
  from flm_inner_inv[OF Suc.prems(1) Suc.prems(3) lt e Suc.prems(2)[unfolded best] inner]
  have i1: "j2len_inv alo blo (Suc i0) m1" and b1: "best_inv alo ahi blo bhi best1" by auto
  have "flm_outer a b blo bhi [Suc i0..<ahi] (m1, best1) = (m', best')"
    using Suc.prems(4) lt inner best by (simp add: upt_conv_Cons)
  moreover have "n = ahi - Suc i0" using Suc.hyps(2) by simp
  moreover have "alo \<le> Suc i0" using Suc.prems(3) by simp
  ultimately show ?case using Suc.hyps(1)[of "Suc i0" m1 best1] i1 b1 by blast
qed

declare extend_left.simps [simp del] extend_right.simps [simp del]

lemma extend_left_inv:
  "best_inv alo ahi blo bhi best \<Longrightarrow> best_inv alo ahi blo bhi (extend_left a b alo blo best)"
proof (induction a b alo blo best rule: extend_left.induct)
  case (1 a b alo blo besti bestj bestsize)
  show ?case
  proof (cases "besti > alo \<and> bestj > blo \<and> a ! (besti - 1) = b ! (bestj - 1)")
    case True
    have "best_inv alo ahi blo bhi (besti - 1, bestj - 1, bestsize + 1)"
      using True "1.prems" unfolding best_inv_def by (auto split: if_splits)
    from "1.IH"[OF True this] True show ?thesis
      by (subst extend_left.simps) simp
  next
    case False
    then have "extend_left a b alo blo (besti, bestj, bestsize) = (besti, bestj, bestsize)"
      by (subst extend_left.simps) auto
    with "1.prems" show ?thesis by simp
  qed
qed

lemma extend_right_inv:
  "best_inv alo ahi blo bhi best \<Longrightarrow> best_inv alo ahi blo bhi (extend_right a b ahi bhi best)"
proof (induction a b ahi bhi best rule: extend_right.induct)
  case (1 a b ahi bhi besti bestj bestsize)
  show ?case
  proof (cases "besti + bestsize < ahi \<and> bestj + bestsize < bhi
         \<and> a ! (besti + bestsize) = b ! (bestj + bestsize)")
    case True
    have "best_inv alo ahi blo bhi (besti, bestj, bestsize + 1)"
      using True "1.prems" unfolding best_inv_def by (auto split: if_splits)
    from "1.IH"[OF True this] True show ?thesis
      by (subst extend_right.simps) simp
  next
    case False
    then have "extend_right a b ahi bhi (besti, bestj, bestsize) = (besti, bestj, bestsize)"
      by (subst extend_right.simps) auto
    with "1.prems" show ?thesis by simp
  qed
qed

lemma find_longest_match_inv:
  "best_inv alo ahi blo bhi (find_longest_match a b alo ahi blo bhi)"
proof -
  obtain m best where
    o: "flm_outer a b blo bhi [alo..<ahi] (Map.empty, alo, blo, 0) = (m, best)"
    by (cases "flm_outer a b blo bhi [alo..<ahi] (Map.empty, alo, blo, 0)") auto
  have "best_inv alo ahi blo bhi best"
    by (rule flm_outer_inv[OF _ _ _ o]) (simp_all add: j2len_inv_def best_inv_def)
  then have "best_inv alo ahi blo bhi (extend_right a b ahi bhi (extend_left a b alo blo best))"
    by (intro extend_right_inv extend_left_inv)
  then show ?thesis using o by (cases best) (simp add: find_longest_match_def)
qed

lemma find_longest_match_bounds:
  assumes "find_longest_match a b alo ahi blo bhi = (i, j, k)" "k \<noteq> 0"
  shows "alo \<le> i" "i + k \<le> ahi" "blo \<le> j" "j + k \<le> bhi"
  using find_longest_match_inv[of alo ahi blo bhi a b] assms
  by (auto simp: best_inv_def)

text \<open>
  \<open>get_matching_blocks\<close>: the worklist loop. The Python \<open>queue\<close> is a list used as a
  stack (\<open>append\<close>, \<open>pop()\<close>); here its top is the head of the list, so the window
  pushed last (the one to the right of the match) is the next one popped.
\<close>

type_synonym window = "nat \<times> nat \<times> nat \<times> nat"
type_synonym block = "nat \<times> nat \<times> nat"

definition push_windows :: "window \<Rightarrow> block \<Rightarrow> window list \<Rightarrow> window list" where
  "push_windows w x queue =
     (case (w, x) of ((alo, ahi, blo, bhi), (i, j, k)) \<Rightarrow>
        (if i + k < ahi \<and> j + k < bhi then [(i + k, ahi, j + k, bhi)] else [])
        @ (if alo < i \<and> blo < j then [(alo, i, blo, j)] else [])
        @ queue)"

definition queue_weight :: "window list \<Rightarrow> nat" where
  "queue_weight queue = sum_list (map (\<lambda>(alo, ahi, blo, bhi). 2 * (ahi - alo) + 1) queue)"

lemma queue_weight_push:
  assumes "find_longest_match a b alo ahi blo bhi = (i, j, k)" "k \<noteq> 0"
  shows "queue_weight (push_windows (alo, ahi, blo, bhi) (i, j, k) queue)
         < queue_weight ((alo, ahi, blo, bhi) # queue)"
  using find_longest_match_bounds[OF assms] assms(2)
  by (auto simp: queue_weight_def push_windows_def)

function mb_loop :: "ustr \<Rightarrow> ustr \<Rightarrow> window list \<Rightarrow> block list \<Rightarrow> block list" where
  "mb_loop a b [] matching_blocks = matching_blocks"
| "mb_loop a b ((alo, ahi, blo, bhi) # queue) matching_blocks =
     (let x = find_longest_match a b alo ahi blo bhi in
      if snd (snd x) \<noteq> 0
      then mb_loop a b (push_windows (alo, ahi, blo, bhi) x queue) (matching_blocks @ [x])
      else mb_loop a b queue matching_blocks)"
  by pat_completeness auto
termination
proof (relation "measure (\<lambda>(a, b, queue, blocks). queue_weight queue)", goal_cases)
  case 1
  show ?case by simp
next
  case (2 a b alo ahi blo bhi queue matching_blocks x)
  obtain i j k where x: "x = (i, j, k)" by (cases x) auto
  from 2 have "find_longest_match a b alo ahi blo bhi = x" "snd (snd x) \<noteq> 0" by simp_all
  then have "find_longest_match a b alo ahi blo bhi = (i, j, k)" "k \<noteq> 0"
    unfolding x by simp_all
  from queue_weight_push[OF this] x show ?case by simp
next
  case (3 a b alo ahi blo bhi queue matching_blocks x)
  show ?case by (simp add: queue_weight_def)
qed

text \<open>
  After the loop the blocks are sorted, adjacent blocks are collapsed into one, and the
  sentinel \<open>(la, lb, 0)\<close> is appended.
\<close>

fun collapse :: "block list \<Rightarrow> block \<Rightarrow> block list \<Rightarrow> block list" where
  "collapse [] (i1, j1, k1) non_adjacent =
     (if k1 \<noteq> 0 then non_adjacent @ [(i1, j1, k1)] else non_adjacent)"
| "collapse ((i2, j2, k2) # rest) (i1, j1, k1) non_adjacent =
     (if i1 + k1 = i2 \<and> j1 + k1 = j2 then collapse rest (i1, j1, k1 + k2) non_adjacent
      else collapse rest (i2, j2, k2)
             (if k1 \<noteq> 0 then non_adjacent @ [(i1, j1, k1)] else non_adjacent))"

definition get_matching_blocks :: "ustr \<Rightarrow> ustr \<Rightarrow> block list" where
  "get_matching_blocks a b =
     (let la = length a; lb = length b;
          matching_blocks = sort (mb_loop a b [(0, la, 0, lb)] [])
      in collapse matching_blocks (0, 0, 0) [] @ [(la, lb, 0)])"

definition calculate_ratio :: "nat \<Rightarrow> nat \<Rightarrow> rat" where
  "calculate_ratio matches len = (if len \<noteq> 0 then 2 * of_nat matches / of_nat len else 1)"

definition ratio :: "ustr \<Rightarrow> ustr \<Rightarrow> rat" where
  "ratio a b =
     calculate_ratio (sum_list (map (\<lambda>triple. snd (snd triple)) (get_matching_blocks a b)))
       (length a + length b)"

definition similar :: "ustr \<Rightarrow> ustr \<Rightarrow> rat" where
  "similar a b = ratio a b"

section \<open>\<open>merge_subtitles\<close> (smart\_subtitle.py)\<close>

text \<open>\<open>int(x)\<close> on a float: truncation toward zero.\<close>

definition py_int :: "rat \<Rightarrow> int" where
  "py_int x = (if 0 \<le> x then \<lfloor>x\<rfloor> else \<lceil>x\<rceil>)"

type_synonym sub = "rat \<times> ustr"

text \<open>
  \<open>audio_dict = {int(timestamp): text for timestamp, text in audio_subs}\<close>: entries are
  stored left to right, a later entry overwriting an earlier one with the same key.
\<close>

definition audio_dict :: "sub list \<Rightarrow> (int \<rightharpoonup> ustr)" where
  "audio_dict audio_subs =
     foldl (\<lambda>d (timestamp, text). d(py_int timestamp \<mapsto> text)) Map.empty audio_subs"

text \<open>
  The inner loop over \<open>range(max(0, v_time_int - 2), v_time_int + 3)\<close>. The source sets
  \<open>best_match\<close> and \<open>matched_time\<close> together, so the state holds them as one optional
  pair next to \<open>best_score\<close>.
\<close>

fun match_loop ::
  "(int \<rightharpoonup> ustr) \<Rightarrow> int set \<Rightarrow> ustr \<Rightarrow> int list \<Rightarrow> (ustr \<times> int) option \<times> rat
     \<Rightarrow> (ustr \<times> int) option \<times> rat" where
  "match_loop adict used v_text [] st = st"
| "match_loop adict used v_text (a_time # rest) (best, best_score) =
     (case adict a_time of
        None \<Rightarrow> match_loop adict used v_text rest (best, best_score)
      | Some a_text \<Rightarrow>
          if a_time \<notin> used then
            (let score = similar v_text a_text in
             if score > best_score \<and> score > 3 / 10
             then match_loop adict used v_text rest (Some (a_text, a_time), score)
             else match_loop adict used v_text rest (best, best_score))
          else match_loop adict used v_text rest (best, best_score))"

definition find_match :: "(int \<rightharpoonup> ustr) \<Rightarrow> int set \<Rightarrow> sub \<Rightarrow> (ustr \<times> int) option" where
  "find_match adict used v =
     (case v of (v_time, v_text) \<Rightarrow>
        let v_time_int = py_int v_time in
        fst (match_loop adict used v_text [max 0 (v_time_int - 2) .. v_time_int + 3 - 1]
               (None, 0)))"

record merge_state =
  merged :: "sub list"
  used_audio :: "int set"
  seen_texts :: "ustr set"

text \<open>
  One iteration of the loop over \<open>video_subs\<close>. \<open>if best_match:\<close> is Python truthiness:
  false for \<open>None\<close> and for the empty string.
\<close>

definition emit :: "sub \<Rightarrow> merge_state \<Rightarrow> merge_state" where
  "emit e st =
     (if snd e \<notin> seen_texts st
      then st\<lparr>seen_texts := insert (snd e) (seen_texts st), merged := merged st @ [e]\<rparr>
      else st)"

definition video_step :: "(int \<rightharpoonup> ustr) \<Rightarrow> merge_state \<Rightarrow> sub \<Rightarrow> merge_state" where
  "video_step adict st v =
     (case v of (v_time, v_text) \<Rightarrow>
        case find_match adict (used_audio st) v of
          Some (best_match, matched_time) \<Rightarrow>
            if best_match \<noteq> [] then
              (let st' = st\<lparr>used_audio := insert matched_time (used_audio st)\<rparr>;
                   final_text = (if length best_match > length v_text then best_match else v_text)
               in emit (v_time, final_text) st')
            else emit (v_time, v_text) st
        | None \<Rightarrow> emit (v_time, v_text) st)"

definition step1 :: "(int \<rightharpoonup> ustr) \<Rightarrow> sub list \<Rightarrow> merge_state" where
  "step1 adict video_subs =
     foldl (video_step adict) \<lparr>merged = [], used_audio = {}, seen_texts = {}\<rparr> video_subs"

text \<open>
  The loop over \<open>audio_subs\<close> that adds the audio entries left unmatched. The
  difference \<open>m_time - a_time\<close> is a float subtraction.
\<close>

definition overlaps :: "sub list \<Rightarrow> rat \<Rightarrow> bool" where
  "overlaps ms a_time = list_ex (\<lambda>(m_time, _). \<bar>round_double (m_time - a_time)\<bar> < 2) ms"

definition audio_step :: "merge_state \<Rightarrow> sub \<Rightarrow> merge_state" where
  "audio_step st a =
     (case a of (a_time, a_text) \<Rightarrow>
        let a_time_int = py_int a_time in
        if a_time_int \<notin> used_audio st \<and> a_text \<notin> seen_texts st then
          (if \<not> overlaps (merged st) a_time
           then st\<lparr>seen_texts := insert a_text (seen_texts st),
                   merged := merged st @ [(a_time, a_text)]\<rparr>
           else st)
        else st)"

definition step2 :: "merge_state \<Rightarrow> sub list \<Rightarrow> merge_state" where
  "step2 st audio_subs = foldl audio_step st audio_subs"

text \<open>Sorting, cleaning and the second deduplication.\<close>

definition douyin :: ustr where
  "douyin = [25238, 38899]"

definition clean_text :: "ustr \<Rightarrow> ustr" where
  "clean_text text = strip (remove_all douyin (strip text))"

fun dedup_loop :: "sub list \<Rightarrow> ustr set \<Rightarrow> sub list \<Rightarrow> sub list" where
  "dedup_loop [] seen final_subs = final_subs"
| "dedup_loop ((time, text0) # rest) seen final_subs =
     (let text = clean_text text0 in
      if text = [] \<or> length text < 2 then dedup_loop rest seen final_subs
      else if (\<exists>seen_text \<in> seen. similar text seen_text > 7 / 10)
           then dedup_loop rest seen final_subs
           else dedup_loop rest (insert text seen) (final_subs @ [(time, text)]))"

definition emitted :: "sub list \<Rightarrow> sub list \<Rightarrow> sub list" where
  "emitted video_subs audio_subs =
     merged (step2 (step1 (audio_dict audio_subs) video_subs) audio_subs)"

definition merge_subtitles :: "sub list \<Rightarrow> sub list \<Rightarrow> sub list" where
  "merge_subtitles video_subs audio_subs =
     dedup_loop (sort_key fst (emitted video_subs audio_subs)) {} []"

section \<open>The text filter of \<open>extract_text_from_frame\<close> (video\_analysis.py)\<close>

text \<open>
  Lines 163 to 184 turn the recognizer's answer into the caption text or the empty
  string. The thirteen phrases of \<open>ignore_phrases\<close> are Chinese words of commentary
  ("in the picture", "shows", "the subtitle is", ...); they are given as lists of code
  points, in the source's order.
\<close>

definition ignore_phrases :: "ustr list" where
  "ignore_phrases =
     [[22270, 29255, 20013], [26174, 31034], [23383, 24149, 26159], [20869, 23481, 26159],
      [25991, 23383, 26159], [25105, 30475, 21040], [36825, 26159], [36825, 20010],
      [26377], [27809, 26377], [23383, 24149, 20869, 23481], [25991, 26412],
      [35782, 21035, 21040]]"

text \<open>The double quote is code point 34, the single quote 39.\<close>

definition text_filter :: "ustr \<Rightarrow> ustr" where
  "text_filter content =
     (let text0 = strip content in
      if list_ex (\<lambda>phrase. contains phrase text0) ignore_phrases then []
      else if length text0 > 50 then []
      else
        let text1 = strip_by (\<lambda>c. c = 39) (strip_by (\<lambda>c. c = 34) text0) in
        if text1 \<noteq> [] \<and> length text1 > 1 then strip text1 else [])"

section \<open>The retrying recognizer (video\_analysis.py, lines 92 to 97)\<close>

text \<open>
  An exception is a value holding its message; \<open>str_exc\<close> is Python's \<open>str(e)\<close>.
\<close>

datatype py_exception = ZeroDivisionError ustr | Exception ustr

definition str_exc :: "py_exception \<Rightarrow> ustr" where
  "str_exc e = (case e of ZeroDivisionError msg \<Rightarrow> msg | Exception msg \<Rightarrow> msg)"

text \<open>
  \<open>extract_text_from_frame\<close> is decorated with
  \<open>@retry(stop=stop_after_attempt(3), wait=wait_exponential(multiplier=1, min=4, max=10),
  reraise=True)\<close> of the tenacity library. The definitions below follow tenacity's loop
  for that configuration: call the function; a returned value is the result; after a
  raised exception, stop if the attempt number has reached 3 and re-raise that exception
  (\<open>reraise=True\<close>), otherwise sleep for \<open>wait_exponential\<close> of the attempt number and
  call again. \<open>fn n\<close> is the outcome of the \<open>n\<close>-th call of the decorated function, counted
  from 1. The result carries the number of calls made and the sleeps taken, in seconds.
\<close>

definition wait_exponential :: "rat \<Rightarrow> rat \<Rightarrow> rat \<Rightarrow> nat \<Rightarrow> rat" where
  "wait_exponential multiplier min_wait max_wait attempt_number =
     max (max 0 min_wait) (min (multiplier * 2 ^ (attempt_number - 1)) max_wait)"

definition stop_after_attempt :: "nat \<Rightarrow> nat \<Rightarrow> bool" where
  "stop_after_attempt max_attempt_number attempt_number \<longleftrightarrow>
     attempt_number \<ge> max_attempt_number"

function retrying ::
  "(nat \<Rightarrow> py_exception + 'a) \<Rightarrow> nat \<Rightarrow> rat list \<Rightarrow> (py_exception + 'a) \<times> nat \<times> rat list" where
  "retrying fn attempt_number sleeps =
     (case fn attempt_number of
        Inr result \<Rightarrow> (Inr result, attempt_number, sleeps)
      | Inl e \<Rightarrow>
          if stop_after_attempt 3 attempt_number then (Inl e, attempt_number, sleeps)
          else retrying fn (attempt_number + 1)
                 (sleeps @ [wait_exponential 1 4 10 attempt_number]))"
  by pat_completeness auto
termination
  by (relation "measure (\<lambda>(fn, attempt_number, sleeps). 3 - attempt_number)")
     (auto simp: stop_after_attempt_def)

declare retrying.simps [simp del]

text \<open>
  One call of the undecorated body: the service answers with status 200 and a content,
  which goes through the text filter, or with another status, which raises
  \<open>Exception("API ...: status")\<close>, or the request itself raises. The body's own
  \<open>except\<close> clause logs and re-raises.
\<close>

datatype response = Status200 ustr | StatusOther ustr | RequestFailed py_exception

definition attempt_frame :: "response \<Rightarrow> py_exception + ustr" where
  "attempt_frame r =
     (case r of
        Status200 content \<Rightarrow> Inr (text_filter content)
      | StatusOther msg \<Rightarrow> Inl (Exception msg)
      | RequestFailed e \<Rightarrow> Inl e)"

definition extract_text_from_frame ::
  "(nat \<Rightarrow> response) \<Rightarrow> (py_exception + ustr) \<times> nat \<times> rat list" where
  "extract_text_from_frame responses = retrying (\<lambda>n. attempt_frame (responses n)) 1 []"

section \<open>\<open>extract_subtitles\<close> (video\_analysis.py, lines 192 to 246)\<close>

text \<open>
  The video is the list of frames that \<open>cap.read()\<close> returns before it reports the end
  (none when the file could not be opened), together with the value of
  \<open>cap.get(cv2.CAP_PROP_FPS)\<close>. What OpenCV and the recognition service do is a
  parameter: the width of a frame, the resized frame, and the service's answer to the
  \<open>n\<close>-th request for a frame.
\<close>

record 'f frame_env =
  width :: "'f \<Rightarrow> nat"
  resize :: "'f \<Rightarrow> 'f"
  service :: "'f \<Rightarrow> nat \<Rightarrow> response"

text \<open>Lines 221 to 229: downscale a frame wider than 1920, then recognize it.\<close>

definition recognize :: "'f frame_env \<Rightarrow> 'f \<Rightarrow> py_exception + ustr" where
  "recognize env frame =
     (let frame' = (if width env frame > 1920 then resize env frame else frame)
      in fst (extract_text_from_frame (service env frame')))"

text \<open>
  The loop over the frames; the state is \<open>(frame_count, subtitles)\<close>.
  \<open>frame_count % interval\<close> and \<open>frame_count / fps\<close> raise \<open>ZeroDivisionError\<close> on a
  zero divisor (with the messages of CPython 3.11), outside the inner \<open>try\<close>, so the
  outer handler re-raises it. The quotient of the two integers is the float nearest to
  the exact quotient. In the inner \<open>except\<close> branch the \<open>continue\<close> skips
  \<open>frame_count += 1\<close>.
\<close>

type_synonym sample_state = "int \<times> sub list"

fun sample_loop ::
  "'f frame_env \<Rightarrow> int \<Rightarrow> int \<Rightarrow> 'f list \<Rightarrow> sample_state \<Rightarrow> py_exception + sample_state" where
  "sample_loop env fps interval [] st = Inr st"
| "sample_loop env fps interval (frame # rest) (frame_count, subtitles) =
     (if interval = 0 then Inl (ZeroDivisionError (ustr ''integer modulo by zero''))
      else if frame_count mod interval = 0 then
        (if fps = 0 then Inl (ZeroDivisionError (ustr ''division by zero''))
         else
           let timestamp = round_double (of_int frame_count / of_int fps) in
           case recognize env frame of
             Inr t \<Rightarrow>
               sample_loop env fps interval rest
                 (frame_count + 1,
                  if t \<noteq> [] then subtitles @ [(timestamp, t)] else subtitles)
           | Inl e \<Rightarrow> sample_loop env fps interval rest (frame_count, subtitles))
      else sample_loop env fps interval rest (frame_count + 1, subtitles))"

text \<open>
  Lines 200 to 205: \<open>fps\<close> is the frame rate truncated to an integer, and the spacing
  of the samples is \<open>int(fps * interval_seconds)\<close>, the integer part of the float
  product. \<open>fps_prop\<close> and \<open>interval_seconds\<close> are floats.
\<close>

definition extract_subtitles ::
  "'f frame_env \<Rightarrow> rat \<Rightarrow> 'f list \<Rightarrow> rat \<Rightarrow> py_exception + sub list" where
  "extract_subtitles env fps_prop frames interval_seconds =
     (let fps = py_int fps_prop;
          interval = py_int (round_double (of_int fps * interval_seconds))
      in map_sum id snd (sample_loop env fps interval frames (0, [])))"

section \<open>\<open>transcribe_audio\<close> and \<open>process_smart_subtitle\<close>\<close>

text \<open>\<open>str(i)\<close> for an integer: its decimal digits, with a minus sign when negative.\<close>

function digits :: "nat \<Rightarrow> ustr" where
  "digits n = (if n < 10 then [48 + int n] else digits (n div 10) @ [48 + int (n mod 10)])"
  by pat_completeness auto
termination
  by (relation "measure id") auto

declare digits.simps [simp del]

definition str_int :: "int \<Rightarrow> ustr" where
  "str_int i = (if i < 0 then 45 # digits (nat (- i)) else digits (nat i))"

text \<open>\<open>s.split(sep)\<close> for a one-character separator; \<open>cur\<close> is the piece being read.\<close>

fun split_on :: "int \<Rightarrow> ustr \<Rightarrow> ustr \<Rightarrow> ustr list" where
  "split_on sep cur [] = [cur]"
| "split_on sep cur (c # cs) =
     (if c = sep then cur # split_on sep [] cs else split_on sep (cur @ [c]) cs)"

text \<open>\<open>"\n".join(lines)\<close>; the line feed is code point 10.\<close>

fun join_lines :: "ustr list \<Rightarrow> ustr" where
  "join_lines [] = []"
| "join_lines [x] = x"
| "join_lines (x # y # ys) = x @ [10] @ join_lines (y # ys)"

text \<open>\<open>s.index(sub)\<close>; \<open>None\<close> stands for the \<open>ValueError\<close> raised when \<open>sub\<close> is absent.\<close>

fun index_of :: "ustr \<Rightarrow> ustr \<Rightarrow> nat option" where
  "index_of sub [] = (if sub = [] then Some 0 else None)"
| "index_of sub (c # cs) =
     (if prefix sub (c # cs) then Some 0 else map_option Suc (index_of sub cs))"

text \<open>
  The line \<open>"[{n}s] {text}"\<close> that both \<open>transcribe_audio\<close> and the final formatting
  write: \<open>[\<close> is code point 91, \<open>s\<close> 115, \<open>]\<close> 93, the space 32.
\<close>

definition format_line :: "int \<Rightarrow> ustr \<Rightarrow> ustr" where
  "format_line n t = [91] @ str_int n @ [115, 93, 32] @ t"

text \<open>
  \<open>transcribe_audio\<close> (audio\_analysis.py, lines 50 to 85). Its argument is what happens
  inside the \<open>try\<close>: the segments \<open>(start, text)\<close> of the transcription, or the exception
  raised. The two messages are Chinese ("error while transcribing the audio: " and
  "no speech recognized"), given as code points.
\<close>

type_synonym segment = "rat \<times> ustr"

definition transcribe_error_prefix :: ustr where
  "transcribe_error_prefix = [36716, 24405, 38899, 39057, 26102, 20986, 38169, 58, 32]"

definition no_speech_message :: ustr where
  "no_speech_message = [26410, 33021, 35782, 21035, 21040, 20219, 20309, 35821, 38899, 20869, 23481]"

definition transcribe_audio :: "py_exception + segment list \<Rightarrow> ustr" where
  "transcribe_audio transcription =
     (case transcription of
        Inl e \<Rightarrow> transcribe_error_prefix @ str_exc e
      | Inr segments \<Rightarrow>
          let result =
                concat (map (\<lambda>(start, t).
                          let start_time = py_int start; t' = strip t
                          in if t' \<noteq> [] then [format_line start_time t'] else [])
                        segments)
          in if result \<noteq> [] then join_lines result else no_speech_message)"

text \<open>
  Lines 124 to 131 of smart\_subtitle.py: one line of the audio content back to an entry.
  \<open>None\<close> is the \<open>continue\<close>, taken when the line has no bracket or when \<open>index\<close> or
  \<open>float\<close> raises. Python's \<open>float\<close> on a string is a parameter, \<open>None\<close> standing for
  its \<open>ValueError\<close>.
\<close>

definition parse_audio_line :: "(ustr \<Rightarrow> rat option) \<Rightarrow> ustr \<Rightarrow> sub option" where
  "parse_audio_line py_float line =
     (if prefix [91] line \<and> 93 \<in> set line then
        (case index_of [115, 93] line of
           None \<Rightarrow> None
         | Some i \<Rightarrow>
             (case index_of [93] line of
                None \<Rightarrow> None
              | Some j \<Rightarrow>
                  let time_str = take (i - 1) (drop 1 line);
                      t = strip (drop (j + 1) line)
                  in (case py_float time_str of
                        None \<Rightarrow> None
                      | Some timestamp \<Rightarrow> Some (timestamp, t))))
      else None)"

definition parse_audio_content :: "(ustr \<Rightarrow> rat option) \<Rightarrow> ustr \<Rightarrow> sub list" where
  "parse_audio_content py_float audio_content =
     List.map_filter (parse_audio_line py_float) (split_on 10 [] audio_content)"

text \<open>
  \<open>process_smart_subtitle\<close> (lines 98 to 153). The argument is \<open>None\<close> when no file was
  supplied; otherwise it holds what the outside world does during the run: whether copying
  the upload to the temporary file raises, the video as \<open>extract_subtitles\<close> sees it,
  whether \<open>extract_audio_from_video\<close> raises, and the outcome of the transcription call.
  Every exception reaches the handler of line 147, which returns a message. The temporary
  files and their removal in the \<open>finally\<close> clauses are not part of the model. The messages
  are Chinese ("please upload a video file", "no valid subtitles could be extracted",
  "processing error: "), given as code points.
\<close>

record 'f run =
  upload_outcome :: "py_exception + unit"
  cv_env :: "'f frame_env"
  video_fps :: rat
  video_frames :: "'f list"
  audio_extraction_outcome :: "py_exception + unit"
  transcription_outcome :: "py_exception + segment list"
  float_of_str :: "ustr \<Rightarrow> rat option"

definition upload_message :: ustr where
  "upload_message = [35831, 19978, 20256, 35270, 39057, 25991, 20214]"

definition no_subtitles_message :: ustr where
  "no_subtitles_message = [26410, 33021, 25552, 21462, 21040, 26377, 25928, 23383, 24149]"

definition error_prefix :: ustr where
  "error_prefix = [22788, 29702, 20986, 38169, 58, 32]"

definition format_subtitles :: "sub list \<Rightarrow> ustr" where
  "format_subtitles merged_subtitles =
     (if merged_subtitles \<noteq> []
      then join_lines (map (\<lambda>(timestamp, t). format_line (py_int timestamp) t) merged_subtitles)
      else no_subtitles_message)"

definition process_smart_subtitle :: "'f run option \<Rightarrow> ustr" where
  "process_smart_subtitle video_file =
     (case video_file of
        None \<Rightarrow> upload_message
      | Some r \<Rightarrow>
          (case upload_outcome r of
             Inl e \<Rightarrow> error_prefix @ str_exc e
           | Inr _ \<Rightarrow>
               (case extract_subtitles (cv_env r) (video_fps r) (video_frames r) 1 of
                  Inl e \<Rightarrow> error_prefix @ str_exc e
                | Inr video_subtitles \<Rightarrow>
                    (case audio_extraction_outcome r of
                       Inl e \<Rightarrow> error_prefix @ str_exc e
                     | Inr _ \<Rightarrow>
                         let audio_content = transcribe_audio (transcription_outcome r);
                             audio_subtitles = parse_audio_content (float_of_str r) audio_content
                         in format_subtitles (merge_subtitles video_subtitles audio_subtitles)))))"

chapter \<open>Properties and claims\<close>

section \<open>Properties of float rounding\<close>

lemma round_double_0: "round_double 0 = 0"
  by (simp add: round_double_def)

lemma ilog2_bounds:
  assumes "0 < x"
  shows "2 powi (ilog2 x) \<le> x \<and> x < 2 powi (ilog2 x + 1)"
proof -
  obtain p q where pq: "quotient_of x = (p, q)" by (cases "quotient_of x") auto
  then have q: "0 < q" by (rule quotient_of_denom_pos)
  from pq have x: "x = of_int p / of_int q" by (rule quotient_of_div)
  with assms q have p: "0 < p" by (simp add: zero_less_divide_iff)
  define m where "m = nat (bitlen p - 1)"
  define n where "n = nat (bitlen q - 1)"
  from bitlen_bounds[OF p] have bp: "2 ^ m \<le> p" "p < 2 ^ nat (bitlen p)" by (simp_all add: m_def)
  from bitlen_bounds[OF q] have bq: "2 ^ n \<le> q" "q < 2 ^ nat (bitlen q)" by (simp_all add: n_def)
  have "bitlen p \<ge> 1" using p by (auto simp: bitlen_alt_def)
  then have lp: "bitlen p = int m + 1" "nat (bitlen p) = Suc m" by (simp_all add: m_def)
  have "bitlen q \<ge> 1" using q by (auto simp: bitlen_alt_def)
  then have lq: "bitlen q = int n + 1" "nat (bitlen q) = Suc n" by (simp_all add: n_def)
  define c where "c = bitlen p - bitlen q"
  have c: "c = int m - int n" by (simp add: c_def lp lq)
  have P: "(2::rat) ^ m \<le> of_int p" "(of_int p :: rat) < 2 ^ Suc m"
    using bp lp by (metis of_int_le_iff of_int_numeral of_int_power, metis of_int_less_iff of_int_numeral of_int_power)
  have Q: "(2::rat) ^ n \<le> of_int q" "(of_int q :: rat) < 2 ^ Suc n"
    using bq lq by (metis of_int_le_iff of_int_numeral of_int_power, metis of_int_less_iff of_int_numeral of_int_power)
  have qpos: "(0::rat) < of_int q" using q by simp
  have ppos: "(0::rat) < of_int p" using p by simp
  have pw: "(2::rat) powi (int a - int b) = 2 ^ a / 2 ^ b" for a b
    by (simp add: power_int_diff)
  have lo: "(2::rat) powi (c - 1) \<le> x"
  proof -
    have "c - 1 = int m - int (Suc n)" by (simp add: c)
    then have "(2::rat) powi (c - 1) = 2 ^ m / 2 ^ Suc n"
      by (simp only: pw)
    also have "\<dots> \<le> of_int p / of_int q"
    proof -
      have "(2::rat) ^ m * of_int q \<le> of_int p * 2 ^ Suc n"
        using P(1) Q(2) qpos ppos by (intro mult_mono) (auto intro: less_imp_le)
      then show ?thesis using qpos by (simp add: field_simps)
    qed
    finally show ?thesis by (simp add: x)
  qed
  have hi: "x < (2::rat) powi (c + 1)"
  proof -
    have "of_int p * (2::rat) ^ n < 2 ^ Suc m * of_int q"
    proof -
      have "of_int p * (2::rat) ^ n < 2 ^ Suc m * 2 ^ n"
        using P(2) by (intro mult_strict_right_mono) auto
      also have "\<dots> \<le> 2 ^ Suc m * of_int q"
        using Q(1) by (intro mult_left_mono) auto
      finally show ?thesis .
    qed
    then have "of_int p / of_int q < (2::rat) ^ Suc m / 2 ^ n"
      using qpos by (simp add: field_simps)
    also have "\<dots> = (2::rat) powi (c + 1)"
    proof -
      have "c + 1 = int (Suc m) - int n" by (simp add: c)
      then show ?thesis by (simp only: pw)
    qed
    finally show ?thesis by (simp add: x)
  qed
  show ?thesis
  proof (cases "2 powi c \<le> x")
    case True
    then have "ilog2 x = c" by (simp add: ilog2_def pq c_def Let_def)
    with True hi show ?thesis by simp
  next
    case False
    then have "ilog2 x = c - 1" by (simp add: ilog2_def pq c_def Let_def)
    with False lo show ?thesis by simp
  qed
qed

lemma ilog2_less:
  assumes "0 < x" "x < 2 powi k"
  shows "ilog2 x < k"
proof (rule ccontr)
  assume "\<not> ilog2 x < k"
  then have "k \<le> ilog2 x" by simp
  then have "(2::rat) powi k \<le> 2 powi (ilog2 x)" by (intro power_int_increasing) auto
  with ilog2_bounds[OF assms(1)] assms(2) show False by linarith
qed

lemma round_half_even_le: "r \<le> of_int M \<Longrightarrow> round_half_even r \<le> M"
proof -
  assume h: "r \<le> of_int M"
  then have f: "\<lfloor>r\<rfloor> \<le> M" by (simp add: floor_le_iff)
  show ?thesis
  proof (cases "\<lfloor>r\<rfloor> = M")
    case True
    with h have "r - of_int \<lfloor>r\<rfloor> \<le> 0" by simp
    then have "r - of_int \<lfloor>r\<rfloor> < 1 / 2" by linarith
    then show ?thesis using True by (simp add: round_half_even_def Let_def)
  next
    case False
    with f have "\<lfloor>r\<rfloor> + 1 \<le> M" by simp
    then show ?thesis by (auto simp: round_half_even_def Let_def)
  qed
qed

lemma round_half_even_ge: "of_int M \<le> r \<Longrightarrow> M \<le> round_half_even r"
proof -
  assume "of_int M \<le> r"
  then have "M \<le> \<lfloor>r\<rfloor>" by (simp add: le_floor_iff)
  then show ?thesis by (auto simp: round_half_even_def Let_def)
qed

lemma quantum_eq: "x \<noteq> 0 \<Longrightarrow> quantum x = 2 powi (max (ilog2 \<bar>x\<bar>) (- 1022) - 52)"
  by (simp add: quantum_def)

lemma round_double_below_2:
  assumes "\<bar>d\<bar> \<le> 2 - 1 / 2 ^ 52"
  shows "\<bar>round_double d\<bar> < 2"
proof (cases "d = 0")
  case True
  then show ?thesis by (simp add: round_double_def)
next
  case False
  define k where "k = max (ilog2 \<bar>d\<bar>) (- 1022) - 52"
  define q :: rat where "q = 2 powi k"
  have qd: "quantum d = q" by (simp add: quantum_def q_def k_def)
  have "\<bar>d\<bar> < 2 powi 1" using assms by simp
  with False have "ilog2 \<bar>d\<bar> < 1" by (intro ilog2_less) auto
  then have k: "k \<le> - 52" by (simp add: k_def)
  have qpos: "0 < q" by (simp add: q_def)
  define N :: int where "N = 2 ^ nat (1 - k)"
  have Nq: "of_int N * q = 2"
  proof -
    have "of_int N = (2::rat) powi (1 - k)" using k by (simp add: N_def power_int_def)
    then have "of_int N * q = (2::rat) powi (1 - k) * 2 powi k" by (simp add: q_def)
    also have "\<dots> = 2 powi ((1 - k) + k)" by (rule power_int_add[symmetric]) simp
    also have "\<dots> = 2" by simp
    finally show ?thesis .
  qed
  have q52: "q \<le> 1 / 2 ^ 52"
  proof -
    have "q \<le> (2::rat) powi (- 52)" unfolding q_def using k by (intro power_int_increasing) auto
    then show ?thesis by (simp add: power_int_minus field_simps)
  qed
  have up: "\<bar>d\<bar> \<le> of_int (N - 1) * q"
  proof -
    have "of_int (N - 1) * q = 2 - q" using Nq by (simp add: algebra_simps)
    with assms q52 show ?thesis by linarith
  qed
  let ?n = "round_half_even (d / q)"
  have "d / q \<le> of_int (N - 1)" using up qpos by (simp add: field_simps)
  then have n1: "?n \<le> N - 1" by (rule round_half_even_le)
  have "of_int (- (N - 1)) \<le> d / q" using up qpos by (simp add: field_simps)
  then have n2: "- (N - 1) \<le> ?n" by (rule round_half_even_ge)
  from n1 n2 have "\<bar>?n\<bar> \<le> N - 1" by simp
  then have "(of_int \<bar>?n\<bar> :: rat) \<le> of_int (N - 1)" by (simp only: of_int_le_iff)
  then have "\<bar>(of_int ?n :: rat)\<bar> \<le> of_int (N - 1)" by (simp only: of_int_abs)
  then have "\<bar>of_int ?n * q\<bar> \<le> of_int (N - 1) * q"
    using qpos by (simp add: abs_mult mult_right_mono)
  also have "\<dots> = 2 - q" using Nq by (simp add: algebra_simps)
  also have "\<dots> < 2" using qpos by simp
  finally show ?thesis using False by (simp add: round_double_def qd)
qed

lemma double_below_1:
  assumes "is_double x" "\<bar>x\<bar> < 1"
  shows "\<bar>x\<bar> \<le> 1 - 1 / 2 ^ 53"
proof (cases "x = 0")
  case True
  then show ?thesis by simp
next
  case False
  then have pos: "0 < \<bar>x\<bar>" by simp
  from assms(2) have "\<bar>x\<bar> < 2 powi 0" by simp
  with pos have e: "ilog2 \<bar>x\<bar> < 0" by (rule ilog2_less)
  show ?thesis
  proof (cases "ilog2 \<bar>x\<bar> = - 1")
    case True
    define q :: rat where "q = 1 / 2 ^ 53"
    have qd: "quantum x = q"
      by (simp add: quantum_def True q_def power_int_minus field_simps)
    define n where "n = round_half_even (x / q)"
    from assms(1) False have x: "x = of_int n * q"
      by (simp add: is_double_def round_double_def qd n_def)
    have qpos: "0 < q" by (simp add: q_def)
    have "\<bar>of_int n :: rat\<bar> * q < 1" using assms(2) qpos by (simp add: x abs_mult)
    then have "\<bar>of_int n :: rat\<bar> < 2 ^ 53" by (simp add: q_def)
    then have "(of_int \<bar>n\<bar> :: rat) < of_int (2 ^ 53)" by (simp only: of_int_abs of_int_power of_int_numeral)
    then have "\<bar>n\<bar> < 2 ^ 53" by (simp only: of_int_less_iff)
    then have "\<bar>n\<bar> \<le> 2 ^ 53 - 1" by linarith
    then have "(of_int \<bar>n\<bar> :: rat) \<le> of_int (2 ^ 53 - 1)" by (simp only: of_int_le_iff)
    then have "\<bar>of_int n :: rat\<bar> \<le> 2 ^ 53 - 1"
      by (simp only: of_int_abs of_int_power of_int_numeral of_int_diff of_int_1)
    then have "\<bar>of_int n :: rat\<bar> * q \<le> (2 ^ 53 - 1) * q"
      using qpos by (simp add: mult_right_mono)
    then show ?thesis by (simp add: x abs_mult q_def)
  next
    case False
    with e have "ilog2 \<bar>x\<bar> + 1 \<le> - 1" by simp
    then have "(2::rat) powi (ilog2 \<bar>x\<bar> + 1) \<le> 2 powi (- 1)"
      by (intro power_int_increasing) auto
    with ilog2_bounds[OF pos] have "\<bar>x\<bar> < 1 / 2" by (simp add: power_int_minus)
    then show ?thesis by simp
  qed
qed

section \<open>The similarity score lies between 0 and 1\<close>

definition sizes :: "block list \<Rightarrow> nat" where
  "sizes blocks = sum_list (map (\<lambda>triple. snd (snd triple)) blocks)"

definition cap_a :: "window list \<Rightarrow> nat" where
  "cap_a queue = sum_list (map (\<lambda>(alo, ahi, blo, bhi). ahi - alo) queue)"

definition cap_b :: "window list \<Rightarrow> nat" where
  "cap_b queue = sum_list (map (\<lambda>(alo, ahi, blo, bhi). bhi - blo) queue)"

lemma sizes_append: "sizes (xs @ ys) = sizes xs + sizes ys"
  by (simp add: sizes_def)

lemma cap_push:
  assumes "find_longest_match a b alo ahi blo bhi = (i, j, k)" "k \<noteq> 0"
  shows "cap_a (push_windows (alo, ahi, blo, bhi) (i, j, k) queue) + k
           \<le> cap_a ((alo, ahi, blo, bhi) # queue)"
    and "cap_b (push_windows (alo, ahi, blo, bhi) (i, j, k) queue) + k
           \<le> cap_b ((alo, ahi, blo, bhi) # queue)"
  using find_longest_match_bounds[OF assms]
  by (auto simp: cap_a_def cap_b_def push_windows_def)

lemma mb_loop_sizes:
  "sizes (mb_loop a b queue blocks) \<le> sizes blocks + cap_a queue \<and>
   sizes (mb_loop a b queue blocks) \<le> sizes blocks + cap_b queue"
proof (induction a b queue blocks rule: mb_loop.induct)
  case (1 a b matching_blocks)
  show ?case by simp
next
  case (2 a b alo ahi blo bhi queue matching_blocks)
  obtain i j k where x: "find_longest_match a b alo ahi blo bhi = (i, j, k)"
    by (cases "find_longest_match a b alo ahi blo bhi") auto
  show ?case
  proof (cases "k = 0")
    case True
    with x have "mb_loop a b ((alo, ahi, blo, bhi) # queue) matching_blocks
                 = mb_loop a b queue matching_blocks"
      by simp
    moreover from "2.IH"(2)[OF refl] x True
    have "sizes (mb_loop a b queue matching_blocks) \<le> sizes matching_blocks + cap_a queue"
         "sizes (mb_loop a b queue matching_blocks) \<le> sizes matching_blocks + cap_b queue"
      by simp_all
    ultimately show ?thesis by (simp add: cap_a_def cap_b_def)
  next
    case False
    let ?q = "push_windows (alo, ahi, blo, bhi) (i, j, k) queue"
    let ?r = "mb_loop a b ?q (matching_blocks @ [(i, j, k)])"
    from x False have eq: "mb_loop a b ((alo, ahi, blo, bhi) # queue) matching_blocks = ?r"
      by (simp add: Let_def)
    from "2.IH"(1)[OF refl] x False
    have ih: "sizes ?r \<le> sizes (matching_blocks @ [(i, j, k)]) + cap_a ?q"
             "sizes ?r \<le> sizes (matching_blocks @ [(i, j, k)]) + cap_b ?q"
      by simp_all
    have s: "sizes (matching_blocks @ [(i, j, k)]) = sizes matching_blocks + k"
      by (simp add: sizes_def)
    from ih s cap_push[OF x False, of queue] show ?thesis
      unfolding eq by linarith
  qed
qed

lemma sizes_sort: "sizes (sort blocks) = sizes blocks"
proof -
  have "mset (map (\<lambda>triple. snd (snd triple)) (sort blocks))
        = mset (map (\<lambda>triple. snd (snd triple)) blocks)"
    by simp
  then have "sum_mset (mset (map (\<lambda>triple. snd (snd triple)) (sort blocks)))
        = sum_mset (mset (map (\<lambda>triple. snd (snd triple)) blocks))"
    by (rule arg_cong)
  then show ?thesis unfolding sizes_def sum_mset_sum_list .
qed

lemma sizes_collapse:
  "sizes (collapse blocks (i1, j1, k1) non_adjacent) = sizes non_adjacent + k1 + sizes blocks"
  by (induction blocks "(i1, j1, k1)" non_adjacent arbitrary: i1 j1 k1 rule: collapse.induct)
     (auto simp: sizes_def)

lemma matches_le:
  "sizes (get_matching_blocks a b) \<le> length a"
  "sizes (get_matching_blocks a b) \<le> length b"
proof -
  have "sizes (get_matching_blocks a b) = sizes (mb_loop a b [(0, length a, 0, length b)] [])"
    by (simp add: get_matching_blocks_def Let_def sizes_append sizes_collapse sizes_sort)
       (simp add: sizes_def)
  with mb_loop_sizes[of a b "[(0, length a, 0, length b)]" "[]"]
  show "sizes (get_matching_blocks a b) \<le> length a" "sizes (get_matching_blocks a b) \<le> length b"
    by (simp_all add: cap_a_def cap_b_def sizes_def)
qed

lemma ratio_range: "0 \<le> ratio a b \<and> ratio a b \<le> 1"
proof -
  let ?m = "sizes (get_matching_blocks a b)"
  have r: "ratio a b = calculate_ratio ?m (length a + length b)"
    by (simp add: ratio_def sizes_def)
  have "2 * ?m \<le> length a + length b" using matches_le[of a b] by linarith
  then have "(2 * of_nat ?m :: rat) \<le> of_nat (length a + length b)"
    by (metis of_nat_le_iff of_nat_mult of_nat_numeral)
  then show ?thesis unfolding r calculate_ratio_def
    by (auto simp: divide_le_eq_1)
qed

text \<open>
  The windows of the worklist stay inside the two strings: a window in range only pushes
  windows in range. Inside such a window \<open>find_longest_match\<close> reads \<open>a[i]\<close> for
  \<open>alo \<le> i < ahi\<close> and the extension loops read inside the window too
  (\<open>find_longest_match_inv\<close>), so no index read of the matcher is out of range.
\<close>

definition in_range :: "ustr \<Rightarrow> ustr \<Rightarrow> window \<Rightarrow> bool" where
  "in_range a b w \<longleftrightarrow>
     (case w of (alo, ahi, blo, bhi) \<Rightarrow>
        alo \<le> ahi \<and> ahi \<le> length a \<and> blo \<le> bhi \<and> bhi \<le> length b)"

lemma push_windows_in_range:
  assumes "find_longest_match a b alo ahi blo bhi = (i, j, k)" "k \<noteq> 0"
    and "in_range a b (alo, ahi, blo, bhi)" "\<forall>w \<in> set queue. in_range a b w"
  shows "\<forall>w \<in> set (push_windows (alo, ahi, blo, bhi) (i, j, k) queue). in_range a b w"
  using find_longest_match_bounds[OF assms(1,2)] assms(3,4)
  by (auto simp: push_windows_def in_range_def)

lemma initial_window_in_range: "in_range a b (0, length a, 0, length b)"
  by (simp add: in_range_def)

section \<open>Properties of the final walk of \<open>merge_subtitles\<close>\<close>

text \<open>The test the final walk applies to an entry, given the texts kept so far.\<close>

definition keeps :: "ustr set \<Rightarrow> ustr \<Rightarrow> bool" where
  "keeps seen text0 \<longleftrightarrow>
     2 \<le> length (clean_text text0) \<and>
     \<not> (\<exists>seen_text \<in> seen. similar (clean_text text0) seen_text > 7 / 10)"

lemma dedup_loop_Cons:
  "dedup_loop ((time, text0) # rest) seen acc =
     (if keeps seen text0
      then dedup_loop rest (insert (clean_text text0) seen) (acc @ [(time, clean_text text0)])
      else dedup_loop rest seen acc)"
  by (auto simp: keeps_def Let_def)

declare dedup_loop.simps(2) [simp del]

lemma dedup_loop_extends: "\<exists>ys. dedup_loop xs seen acc = acc @ ys"
proof (induction xs arbitrary: seen acc)
  case Nil
  show ?case by simp
next
  case (Cons x xs)
  obtain time text0 where x: "x = (time, text0)" by (cases x) auto
  show ?case
  proof (cases "keeps seen text0")
    case True
    from Cons[of "insert (clean_text text0) seen" "acc @ [(time, clean_text text0)]"]
    obtain ys where "dedup_loop xs (insert (clean_text text0) seen) (acc @ [(time, clean_text text0)])
        = acc @ (time, clean_text text0) # ys" by auto
    with True show ?thesis by (simp add: x dedup_loop_Cons)
  next
    case False
    with Cons[of seen acc] show ?thesis by (simp add: x dedup_loop_Cons)
  qed
qed

lemma dedup_loop_append:
  "seen = snd ` set acc \<Longrightarrow>
   dedup_loop (xs @ ys) seen acc =
     dedup_loop ys (snd ` set (dedup_loop xs seen acc)) (dedup_loop xs seen acc)"
proof (induction xs arbitrary: seen acc)
  case Nil
  then show ?case by simp
next
  case (Cons x xs)
  obtain time text0 where x: "x = (time, text0)" by (cases x) auto
  show ?case
  proof (cases "keeps seen text0")
    case True
    have "insert (clean_text text0) seen = snd ` set (acc @ [(time, clean_text text0)])"
      using Cons.prems by simp
    from Cons.IH[OF this] True show ?thesis by (simp add: x dedup_loop_Cons)
  next
    case False
    with Cons.IH[OF Cons.prems] show ?thesis by (simp add: x dedup_loop_Cons)
  qed
qed

definition pair_ok :: "sub list \<Rightarrow> bool" where
  "pair_ok out \<longleftrightarrow>
     (\<forall>i j. i < j \<and> j < length out \<longrightarrow> similar (snd (out ! j)) (snd (out ! i)) \<le> 7 / 10)"

lemma pair_ok_snoc:
  assumes "pair_ok acc" "\<forall>s \<in> snd ` set acc. similar c s \<le> 7 / 10"
  shows "pair_ok (acc @ [(t, c)])"
  unfolding pair_ok_def
proof (intro allI impI)
  fix i j assume h: "i < j \<and> j < length (acc @ [(t, c)])"
  show "similar (snd ((acc @ [(t, c)]) ! j)) (snd ((acc @ [(t, c)]) ! i)) \<le> 7 / 10"
  proof (cases "j < length acc")
    case True
    with h assms(1) show ?thesis by (simp add: pair_ok_def nth_append)
  next
    case False
    with h have j: "j = length acc" and i: "i < length acc" by simp_all
    from i have "snd (acc ! i) \<in> snd ` set acc" by simp
    with assms(2) have "similar c (snd (acc ! i)) \<le> 7 / 10" by blast
    with i j show ?thesis by (simp add: nth_append)
  qed
qed

lemma dedup_loop_pair_ok:
  "seen = snd ` set acc \<Longrightarrow> pair_ok acc \<Longrightarrow> pair_ok (dedup_loop xs seen acc)"
proof (induction xs arbitrary: seen acc)
  case Nil
  then show ?case by simp
next
  case (Cons x xs)
  obtain time text0 where x: "x = (time, text0)" by (cases x) auto
  show ?case
  proof (cases "keeps seen text0")
    case True
    have s: "insert (clean_text text0) seen = snd ` set (acc @ [(time, clean_text text0)])"
      using Cons.prems by simp
    from True Cons.prems(1) have "\<forall>s \<in> snd ` set acc. similar (clean_text text0) s \<le> 7 / 10"
      unfolding keeps_def by (metis not_le)
    from pair_ok_snoc[OF Cons.prems(2) this]
    have "pair_ok (acc @ [(time, clean_text text0)])" .
    from Cons.IH[OF s this] True show ?thesis by (simp add: x dedup_loop_Cons)
  next
    case False
    with Cons.IH[OF Cons.prems] show ?thesis by (simp add: x dedup_loop_Cons)
  qed
qed

lemma dedup_loop_sorted:
  "sorted (map fst (acc @ xs)) \<Longrightarrow> sorted (map fst (dedup_loop xs seen acc))"
proof (induction xs arbitrary: seen acc)
  case Nil
  then show ?case by simp
next
  case (Cons x xs)
  obtain time text0 where x: "x = (time, text0)" by (cases x) auto
  show ?case
  proof (cases "keeps seen text0")
    case True
    have "map fst ((acc @ [(time, clean_text text0)]) @ xs) = map fst (acc @ x # xs)"
      by (simp add: x)
    with Cons.prems have "sorted (map fst ((acc @ [(time, clean_text text0)]) @ xs))" by simp
    from Cons.IH[OF this] True show ?thesis by (simp add: x dedup_loop_Cons)
  next
    case False
    from Cons.prems have "sorted (map fst (acc @ xs))"
      by (simp add: sorted_append)
    from Cons.IH[OF this] False show ?thesis by (simp add: x dedup_loop_Cons)
  qed
qed

lemma dedup_loop_greedy:
  "prefix (dedup_loop pre {} [] @
            (if keeps (snd ` set (dedup_loop pre {} [])) raw then [(t, clean_text raw)] else []))
          (dedup_loop (pre @ (t, raw) # post) {} [])"
proof -
  let ?K = "dedup_loop pre {} []"
  have eq: "dedup_loop (pre @ (t, raw) # post) {} [] = dedup_loop ((t, raw) # post) (snd ` set ?K) ?K"
    by (rule dedup_loop_append) simp
  show ?thesis
  proof (cases "keeps (snd ` set ?K) raw")
    case True
    from dedup_loop_extends[of post "insert (clean_text raw) (snd ` set ?K)" "?K @ [(t, clean_text raw)]"]
    obtain ys where "dedup_loop post (insert (clean_text raw) (snd ` set ?K)) (?K @ [(t, clean_text raw)])
        = (?K @ [(t, clean_text raw)]) @ ys" by blast
    with True show ?thesis unfolding eq by (simp add: dedup_loop_Cons)
  next
    case False
    from dedup_loop_extends[of post "snd ` set ?K" ?K]
    obtain ys where "dedup_loop post (snd ` set ?K) ?K = ?K @ ys" by blast
    with False show ?thesis unfolding eq by (simp add: dedup_loop_Cons)
  qed
qed

section \<open>Claims about the similarity score\<close>

text \<open>
  C9 (as amended). For all strings \<open>a\<close> and \<open>b\<close>, \<open>similar a b\<close> never throws
  (every loop of the matcher terminates and its index reads stay in range, so the
  function is total) and returns a value in the range \<open>[0, 1]\<close>. The score is not
  symmetric in its arguments.
\<close>

theorem similar_range: "0 \<le> similar a b \<and> similar a b \<le> 1"
  unfolding similar_def by (rule ratio_range)

text \<open>
  C9, the counterexample to symmetry: \<open>similar("tide", "diet") = 0.25\<close> and
  \<open>similar("diet", "tide") = 0.5\<close>.
\<close>

theorem similar_not_symmetric:
  "similar (ustr ''tide'') (ustr ''diet'') = 1 / 4 \<and>
   similar (ustr ''diet'') (ustr ''tide'') = 1 / 2 \<and>
   similar (ustr ''tide'') (ustr ''diet'') \<noteq> similar (ustr ''diet'') (ustr ''tide'')"
  by code_simp

section \<open>Claims about \<open>merge_subtitles\<close>\<close>

text \<open>
  C1 (as amended). For all input video and audio streams, the output of
  \<open>merge_subtitles\<close> is sorted ascending by timestamp, and no entry of the output has a
  similarity greater than 0.7 to an entry before it, the score being taken with the later
  text as first argument and the earlier text as second, as the final walk computes it.
  The walk is greedy: an entry of the sorted list is kept exactly when its cleaned text
  has at least 2 characters and scores at most 0.7 against every entry kept before it.
\<close>

theorem merge_subtitles_sorted_dedup:
  "sorted (map fst (merge_subtitles video_subs audio_subs)) \<and>
   (\<forall>i j. i < j \<and> j < length (merge_subtitles video_subs audio_subs) \<longrightarrow>
      similar (snd (merge_subtitles video_subs audio_subs ! j))
              (snd (merge_subtitles video_subs audio_subs ! i)) \<le> 7 / 10) \<and>
   (\<forall>pre t raw post.
      sort_key fst (emitted video_subs audio_subs) = pre @ (t, raw) # post \<longrightarrow>
      prefix (dedup_loop pre {} [] @
               (if keeps (snd ` set (dedup_loop pre {} [])) raw then [(t, clean_text raw)] else []))
             (merge_subtitles video_subs audio_subs))"
proof (intro conjI allI impI)
  show "sorted (map fst (merge_subtitles video_subs audio_subs))"
    unfolding merge_subtitles_def by (rule dedup_loop_sorted) simp
next
  have "pair_ok (merge_subtitles video_subs audio_subs)"
    unfolding merge_subtitles_def by (rule dedup_loop_pair_ok) (simp_all add: pair_ok_def)
  then show "similar (snd (merge_subtitles video_subs audio_subs ! j))
              (snd (merge_subtitles video_subs audio_subs ! i)) \<le> 7 / 10"
    if "i < j \<and> j < length (merge_subtitles video_subs audio_subs)" for i j
    using that unfolding pair_ok_def by blast
next
  fix pre t raw post
  assume "sort_key fst (emitted video_subs audio_subs) = pre @ (t, raw) # post"
  then show "prefix (dedup_loop pre {} [] @
               (if keeps (snd ` set (dedup_loop pre {} [])) raw then [(t, clean_text raw)] else []))
             (merge_subtitles video_subs audio_subs)"
    unfolding merge_subtitles_def by (simp only: dedup_loop_greedy)
qed

lemma walk_example:
  "sort_key fst (emitted [(2, ustr ''abab''), (0, ustr ''aba''), (1, ustr ''babba'')] [])
     = [(0, ustr ''aba''), (1, ustr ''babba'')] @ (2, ustr ''abab'') # []"
  by code_simp

lemma merge_example:
  "merge_subtitles [(2, ustr ''abab''), (0, ustr ''aba''), (1, ustr ''babba'')] []
     = [(0, ustr ''aba''), (1, ustr ''babba'')]"
  by code_simp

lemma dropped_example:
  "\<not> keeps (snd ` set (dedup_loop [(0, ustr ''aba''), (1, ustr ''babba'')] {} [])) (ustr ''abab'')"
  by code_simp

theorem merge_subtitles_sorted_dedup_witness:
  "merge_subtitles [(2, ustr ''abab''), (0, ustr ''aba''), (1, ustr ''babba'')] []
     = [(0, ustr ''aba''), (1, ustr ''babba'')] \<and>
   sorted (map fst (merge_subtitles [(2, ustr ''abab''), (0, ustr ''aba''), (1, ustr ''babba'')] [])) \<and>
   similar (snd (merge_subtitles [(2, ustr ''abab''), (0, ustr ''aba''), (1, ustr ''babba'')] [] ! 1))
           (snd (merge_subtitles [(2, ustr ''abab''), (0, ustr ''aba''), (1, ustr ''babba'')] [] ! 0))
     \<le> 7 / 10 \<and>
   prefix (dedup_loop [(0, ustr ''aba''), (1, ustr ''babba'')] {} [] @ [])
          (merge_subtitles [(2, ustr ''abab''), (0, ustr ''aba''), (1, ustr ''babba'')] [])"
proof -
  let ?V = "[(2, ustr ''abab''), (0, ustr ''aba''), (1, ustr ''babba'')]"
  note T = merge_subtitles_sorted_dedup[of ?V "[]"]
  have len: "(0::nat) < 1 \<and> 1 < length (merge_subtitles ?V [])"
    by (simp add: merge_example)
  from T have a: "sorted (map fst (merge_subtitles ?V []))" by (rule conjunct1)
  from T len have b: "similar (snd (merge_subtitles ?V [] ! 1)) (snd (merge_subtitles ?V [] ! 0)) \<le> 7 / 10"
    by blast
  from T walk_example
  have "prefix (dedup_loop [(0, ustr ''aba''), (1, ustr ''babba'')] {} [] @
               (if keeps (snd ` set (dedup_loop [(0, ustr ''aba''), (1, ustr ''babba'')] {} []))
                      (ustr ''abab'')
                then [(2, clean_text (ustr ''abab''))] else []))
             (merge_subtitles ?V [])"
    by blast
  with dropped_example
  have c: "prefix (dedup_loop [(0, ustr ''aba''), (1, ustr ''babba'')] {} [] @ [])
             (merge_subtitles ?V [])"
    by simp
  from merge_example a b c show ?thesis by blast
qed

text \<open>
  C1, the counterexample to the claim as stated: the video stream
  \<open>[(0, "aba"), (1, "babba")]\<close> with no audio gives an output that holds both entries,
  although \<open>similar("aba", "babba") = 0.75 > 0.7\<close>. The walk only computes
  \<open>similar("babba", "aba") = 0.5\<close>.
\<close>

theorem merge_subtitles_similar_pair:
  "merge_subtitles [(0, ustr ''aba''), (1, ustr ''babba'')] []
     = [(0, ustr ''aba''), (1, ustr ''babba'')] \<and>
   similar (ustr ''aba'') (ustr ''babba'') > 7 / 10"
  by code_simp

subsection \<open>The match found for a video entry\<close>

text \<open>
  Invariant of \<open>match_loop\<close> over the candidate seconds \<open>P\<close> already visited: the best
  candidate so far is an unconsumed key of the dictionary scoring above 0.3, and no visited
  unconsumed candidate scores above both the best score and 0.3.
\<close>

definition match_inv ::
  "(int \<rightharpoonup> ustr) \<Rightarrow> int set \<Rightarrow> ustr \<Rightarrow> int set \<Rightarrow> (ustr \<times> int) option \<times> rat \<Rightarrow> bool" where
  "match_inv adict used v_text P st \<longleftrightarrow>
     (case fst st of
        None \<Rightarrow> snd st = 0
      | Some (a_text, a_time) \<Rightarrow>
          a_time \<in> P \<and> adict a_time = Some a_text \<and> a_time \<notin> used \<and>
          snd st = similar v_text a_text \<and> snd st > 3 / 10) \<and>
     (\<forall>c \<in> P. c \<notin> used \<longrightarrow>
        (\<forall>c_text. adict c = Some c_text \<longrightarrow> similar v_text c_text \<le> max (snd st) (3 / 10)))"

lemma match_inv_mono:
  "match_inv adict used v_text P (best, bs) \<Longrightarrow> c \<in> used \<or> adict c = None
   \<Longrightarrow> match_inv adict used v_text (insert c P) (best, bs)"
  unfolding match_inv_def by (auto split: option.splits)

lemma match_inv_skip:
  "match_inv adict used v_text P (best, bs) \<Longrightarrow> adict c = Some c_text
   \<Longrightarrow> \<not> (similar v_text c_text > bs \<and> similar v_text c_text > 3 / 10)
   \<Longrightarrow> match_inv adict used v_text (insert c P) (best, bs)"
  unfolding match_inv_def by (auto split: option.splits)

lemma match_inv_take:
  "match_inv adict used v_text P (best, bs) \<Longrightarrow> adict c = Some c_text \<Longrightarrow> c \<notin> used
   \<Longrightarrow> similar v_text c_text > bs \<Longrightarrow> similar v_text c_text > 3 / 10
   \<Longrightarrow> match_inv adict used v_text (insert c P) (Some (c_text, c), similar v_text c_text)"
  unfolding match_inv_def by (fastforce split: option.splits)

lemma match_loop_inv:
  "match_inv adict used v_text P st
   \<Longrightarrow> match_inv adict used v_text (P \<union> set ts) (match_loop adict used v_text ts st)"
proof (induction ts arbitrary: P st)
  case Nil
  then show ?case by simp
next
  case (Cons c ts)
  obtain best bs where st: "st = (best, bs)" by (cases st) auto
  have u: "P \<union> set (c # ts) = insert c P \<union> set ts" by auto
  show ?case
  proof (cases "adict c")
    case None
    from match_inv_mono[OF Cons.prems[unfolded st], of c] None
    have "match_inv adict used v_text (insert c P) (best, bs)" by simp
    from Cons.IH[OF this] None show ?thesis unfolding u st by simp
  next
    case (Some c_text)
    show ?thesis
    proof (cases "c \<in> used")
      case True
      from match_inv_mono[OF Cons.prems[unfolded st], of c] True
      have "match_inv adict used v_text (insert c P) (best, bs)" by simp
      from Cons.IH[OF this] Some True show ?thesis unfolding u st by simp
    next
      case False
      show ?thesis
      proof (cases "similar v_text c_text > bs \<and> similar v_text c_text > 3 / 10")
        case True
        from match_inv_take[OF Cons.prems[unfolded st] Some False] True
        have i: "match_inv adict used v_text (insert c P) (Some (c_text, c), similar v_text c_text)"
          by simp
        have eq: "match_loop adict used v_text (c # ts) (best, bs)
            = match_loop adict used v_text ts (Some (c_text, c), similar v_text c_text)"
          using Some False True by (auto simp: Let_def)
        from Cons.IH[OF i] show ?thesis unfolding u st eq .
      next
        case no: False
        from match_inv_skip[OF Cons.prems[unfolded st] Some no]
        have i: "match_inv adict used v_text (insert c P) (best, bs)" .
        have eq: "match_loop adict used v_text (c # ts) (best, bs)
            = match_loop adict used v_text ts (best, bs)"
          using Some False no by (auto simp: Let_def)
        from Cons.IH[OF i] show ?thesis unfolding u st eq .
      qed
    qed
  qed
qed

definition match_window :: "rat \<Rightarrow> int list" where
  "match_window v_time = [max 0 (py_int v_time - 2) .. py_int v_time + 3 - 1]"

lemma find_match_Some:
  assumes "find_match adict used (v_time, v_text) = Some (a_text, a_time)"
  shows "adict a_time = Some a_text \<and> a_time \<notin> used \<and> a_time \<in> set (match_window v_time) \<and>
         similar v_text a_text > 3 / 10 \<and>
         (\<forall>c \<in> set (match_window v_time). c \<notin> used \<longrightarrow>
            (\<forall>c_text. adict c = Some c_text \<longrightarrow> similar v_text c_text \<le> similar v_text a_text))"
proof -
  let ?r = "match_loop adict used v_text (match_window v_time) (None, 0)"
  have "match_inv adict used v_text {} (None, 0)" by (simp add: match_inv_def)
  from match_loop_inv[OF this, of "match_window v_time"]
  have inv: "match_inv adict used v_text (set (match_window v_time)) ?r" by simp
  from assms have f: "fst ?r = Some (a_text, a_time)"
    by (simp add: find_match_def match_window_def Let_def)
  from inv f show ?thesis unfolding match_inv_def by (auto simp: max_def split: if_splits)
qed

lemma step1_snoc: "step1 adict (pre @ [v]) = video_step adict (step1 adict pre) v"
  by (simp add: step1_def)

text \<open>
  C2 (as amended). For every video entry \<open>v\<close> matched in step 1 to an audio entry (the
  unconsumed dictionary entry of an integer second within 2 of \<open>v\<close>'s with the best
  similarity, that similarity exceeding 0.3), the audio second is marked consumed and the
  merged text is the longer of the two texts, the video text on equal lengths. Step 1 then
  appends exactly one entry with \<open>v\<close>'s timestamp and that text when the text was not
  emitted before, and appends nothing when it was. In particular the video stream
  \<open>[(5, "hello world")]\<close> and the audio stream \<open>[(5, "hello world expanded")]\<close> merge
  to exactly one entry, at timestamp 5 with text \<open>"hello world expanded"\<close>.
\<close>

theorem matched_video_entry_emits_longer:
  assumes "find_match adict (used_audio (step1 adict pre)) (v_time, v_text) = Some (a_text, a_time)"
    and "a_text \<noteq> []"
  shows "similar v_text a_text > 3 / 10 \<and> \<bar>a_time - py_int v_time\<bar> \<le> 2 \<and>
     (\<forall>c \<in> set (match_window v_time). c \<notin> used_audio (step1 adict pre) \<longrightarrow>
        (\<forall>c_text. adict c = Some c_text \<longrightarrow> similar v_text c_text \<le> similar v_text a_text)) \<and>
     used_audio (step1 adict (pre @ [(v_time, v_text)])) = insert a_time (used_audio (step1 adict pre)) \<and>
     merged (step1 adict (pre @ [(v_time, v_text)])) =
       merged (step1 adict pre) @
         (if (if length a_text > length v_text then a_text else v_text) \<in> seen_texts (step1 adict pre)
          then []
          else [(v_time, if length a_text > length v_text then a_text else v_text)]) \<and>
     merge_subtitles [(5, ustr ''hello world'')] [(5, ustr ''hello world expanded'')]
       = [(5, ustr ''hello world expanded'')]"
proof -
  note m = find_match_Some[OF assms(1)]
  from m have "a_time \<in> set (match_window v_time)" by blast
  then have w: "\<bar>a_time - py_int v_time\<bar> \<le> 2" by (auto simp: match_window_def)
  have ex: "merge_subtitles [(5, ustr ''hello world'')] [(5, ustr ''hello world expanded'')]
       = [(5, ustr ''hello world expanded'')]"
    by code_simp
  have u: "used_audio (step1 adict (pre @ [(v_time, v_text)])) = insert a_time (used_audio (step1 adict pre))"
    using assms by (simp add: step1_snoc video_step_def emit_def Let_def)
  have e: "merged (step1 adict (pre @ [(v_time, v_text)])) =
       merged (step1 adict pre) @
         (if (if length a_text > length v_text then a_text else v_text) \<in> seen_texts (step1 adict pre)
          then []
          else [(v_time, if length a_text > length v_text then a_text else v_text)])"
    using assms by (simp add: step1_snoc video_step_def emit_def Let_def)
  from m w u e ex show ?thesis by blast
qed

lemma hello_match:
  "find_match (audio_dict [(5, ustr ''hello world expanded'')])
     (used_audio (step1 (audio_dict [(5, ustr ''hello world expanded'')]) []))
     (5, ustr ''hello world'') = Some (ustr ''hello world expanded'', 5)"
  by code_simp

lemma hello_nonempty: "ustr ''hello world expanded'' \<noteq> []"
  by code_simp

theorem matched_video_entry_emits_longer_witness:
  "find_match (audio_dict [(5, ustr ''hello world expanded'')])
     (used_audio (step1 (audio_dict [(5, ustr ''hello world expanded'')]) []))
     (5, ustr ''hello world'') = Some (ustr ''hello world expanded'', 5) \<and>
   similar (ustr ''hello world'') (ustr ''hello world expanded'') > 3 / 10 \<and>
   merged (step1 (audio_dict [(5, ustr ''hello world expanded'')]) ([] @ [(5, ustr ''hello world'')]))
     = [(5, ustr ''hello world expanded'')]"
proof -
  note T = matched_video_entry_emits_longer[OF hello_match hello_nonempty]
  from T have a: "similar (ustr ''hello world'') (ustr ''hello world expanded'') > 3 / 10"
    by (rule conjunct1)
  from T have "merged (step1 (audio_dict [(5, ustr ''hello world expanded'')]) ([] @ [(5, ustr ''hello world'')]))
     = merged (step1 (audio_dict [(5, ustr ''hello world expanded'')]) []) @
         (if (if length (ustr ''hello world expanded'') > length (ustr ''hello world'')
              then ustr ''hello world expanded'' else ustr ''hello world'')
             \<in> seen_texts (step1 (audio_dict [(5, ustr ''hello world expanded'')]) [])
          then []
          else [(5, if length (ustr ''hello world expanded'') > length (ustr ''hello world'')
              then ustr ''hello world expanded'' else ustr ''hello world'')])"
    by blast
  then have b: "merged (step1 (audio_dict [(5, ustr ''hello world expanded'')]) ([] @ [(5, ustr ''hello world'')]))
     = [(5, ustr ''hello world expanded'')]"
    by (simp add: step1_def ustr_def)
  from hello_match a b show ?thesis by blast
qed

text \<open>
  C2, the counterexample to the claim as stated: with video and audio streams both
  \<open>[(0, "hello"), (10, "hello")]\<close> the second video entry is matched to the audio entry
  of second 10, but its text was already emitted, so step 1 emits nothing at timestamp 10
  and neither does the whole merge.
\<close>

theorem matched_video_entry_not_emitted:
  "find_match (audio_dict [(0, ustr ''hello''), (10, ustr ''hello'')])
     (used_audio (step1 (audio_dict [(0, ustr ''hello''), (10, ustr ''hello'')]) [(0, ustr ''hello'')]))
     (10, ustr ''hello'') = Some (ustr ''hello'', 10) \<and>
   merged (step1 (audio_dict [(0, ustr ''hello''), (10, ustr ''hello'')])
             [(0, ustr ''hello''), (10, ustr ''hello'')]) = [(0, ustr ''hello'')] \<and>
   merge_subtitles [(0, ustr ''hello''), (10, ustr ''hello'')]
                   [(0, ustr ''hello''), (10, ustr ''hello'')] = [(0, ustr ''hello'')]"
  by code_simp

subsection \<open>The pass over the audio entries\<close>

lemma step2_snoc: "step2 st (xs @ [a]) = audio_step (step2 st xs) a"
  by (simp add: step2_def)

lemma step2_Cons: "step2 st (a # xs) = step2 (audio_step st a) xs"
  by (simp add: step2_def)

lemma step2_append: "step2 st (xs @ ys) = step2 (step2 st xs) ys"
  by (simp add: step2_def)

lemma audio_step_cases:
  "audio_step st (a_time, a_text) =
     (if py_int a_time \<notin> used_audio st \<and> a_text \<notin> seen_texts st \<and> \<not> overlaps (merged st) a_time
      then st\<lparr>seen_texts := insert a_text (seen_texts st),
              merged := merged st @ [(a_time, a_text)]\<rparr>
      else st)"
  by (simp add: audio_step_def Let_def)

lemma audio_step_used: "used_audio (audio_step st a) = used_audio st"
  by (cases a) (simp add: audio_step_cases)

lemma step2_used: "used_audio (step2 st xs) = used_audio st"
  by (induction xs rule: rev_induct) (simp_all add: step2_snoc audio_step_used step2_def)

lemma step2_extends: "\<exists>ys. merged (step2 st xs) = merged st @ ys"
proof (induction xs rule: rev_induct)
  case Nil
  show ?case by (simp add: step2_def)
next
  case (snoc a xs)
  then obtain ys where ys: "merged (step2 st xs) = merged st @ ys" by blast
  obtain a_time a_text where a: "a = (a_time, a_text)" by (cases a) auto
  show ?case unfolding step2_snoc a audio_step_cases using ys by simp
qed

text \<open>
  Two floats with the same integer part are less than 2 apart, also after the float
  subtraction: within \<open>(-1, 1)\<close>, the integer part being 0, both are at most
  \<open>1 - 2^(-53)\<close> in absolute value.
\<close>

lemma same_second_close:
  assumes "is_double x" "is_double y" "py_int x = py_int y"
  shows "\<bar>round_double (x - y)\<bar> < 2"
proof -
  have fx: "of_int \<lfloor>x\<rfloor> \<le> x" "x < of_int \<lfloor>x\<rfloor> + 1" by linarith+
  have fy: "of_int \<lfloor>y\<rfloor> \<le> y" "y < of_int \<lfloor>y\<rfloor> + 1" by linarith+
  have cx: "x \<le> of_int \<lceil>x\<rceil>" "of_int \<lceil>x\<rceil> < x + 1" by linarith+
  have cy: "y \<le> of_int \<lceil>y\<rceil>" "of_int \<lceil>y\<rceil> < y + 1" by linarith+
  have "(\<bar>x\<bar> < 1 \<and> \<bar>y\<bar> < 1) \<or> \<bar>x - y\<bar> < 1"
  proof (cases "0 \<le> x")
    case x: True
    show ?thesis
    proof (cases "0 \<le> y")
      case True
      with x assms(3) have "\<lfloor>x\<rfloor> = \<lfloor>y\<rfloor>" by (simp add: py_int_def)
      with fx fy show ?thesis by linarith
    next
      case False
      with x assms(3) have e: "\<lfloor>x\<rfloor> = \<lceil>y\<rceil>" by (simp add: py_int_def)
      from x have "0 \<le> \<lfloor>x\<rfloor>" by simp
      moreover from False have "\<lceil>y\<rceil> \<le> 0" by (simp add: ceiling_le_iff)
      ultimately have "\<lfloor>x\<rfloor> = 0" "\<lceil>y\<rceil> = 0" using e by linarith+
      with fx cy x False show ?thesis by simp
    qed
  next
    case x: False
    show ?thesis
    proof (cases "0 \<le> y")
      case True
      with x assms(3) have e: "\<lceil>x\<rceil> = \<lfloor>y\<rfloor>" by (simp add: py_int_def)
      from True have "0 \<le> \<lfloor>y\<rfloor>" by simp
      moreover from x have "\<lceil>x\<rceil> \<le> 0" by (simp add: ceiling_le_iff)
      ultimately have "\<lceil>x\<rceil> = 0" "\<lfloor>y\<rfloor> = 0" using e by linarith+
      with cx fy x True show ?thesis by simp
    next
      case False
      with x assms(3) have "\<lceil>x\<rceil> = \<lceil>y\<rceil>" by (simp add: py_int_def)
      with cx cy show ?thesis by linarith
    qed
  qed
  then have "\<bar>x - y\<bar> \<le> 2 - 1 / 2 ^ 52"
  proof
    assume "\<bar>x\<bar> < 1 \<and> \<bar>y\<bar> < 1"
    then have "\<bar>x\<bar> < 1" "\<bar>y\<bar> < 1" by simp_all
    from double_below_1[OF assms(1) this(1)] double_below_1[OF assms(2) this(2)]
    have "\<bar>x\<bar> + \<bar>y\<bar> \<le> (1 - 1 / 2 ^ 53) + (1 - 1 / 2 ^ 53)" by (rule add_mono)
    also have "\<dots> = 2 - 1 / 2 ^ 52" by simp
    finally show ?thesis using abs_triangle_ineq4[of x y] by (rule order_trans[rotated])
  next
    assume "\<bar>x - y\<bar> < 1"
    then show ?thesis by simp
  qed
  then show ?thesis by (rule round_double_below_2)
qed

text \<open>The entries the pass appends to \<open>merged\<close>.\<close>

definition leftovers :: "merge_state \<Rightarrow> sub list \<Rightarrow> sub list" where
  "leftovers st audio_subs = drop (length (merged st)) (merged (step2 st audio_subs))"

lemma merged_step2: "merged (step2 st xs) = merged st @ leftovers st xs"
  using step2_extends[of st xs] by (auto simp: leftovers_def)

lemma leftovers_snoc:
  "leftovers st (xs @ [(a_time, a_text)]) =
     (if py_int a_time \<notin> used_audio st \<and> a_text \<notin> seen_texts (step2 st xs)
         \<and> \<not> overlaps (merged st @ leftovers st xs) a_time
      then leftovers st xs @ [(a_time, a_text)] else leftovers st xs)"
proof -
  have "merged (step2 st (xs @ [(a_time, a_text)])) = merged st @
     (if py_int a_time \<notin> used_audio st \<and> a_text \<notin> seen_texts (step2 st xs)
         \<and> \<not> overlaps (merged st @ leftovers st xs) a_time
      then leftovers st xs @ [(a_time, a_text)] else leftovers st xs)"
    unfolding step2_snoc audio_step_cases step2_used
    by (simp add: merged_step2[symmetric])
  then show ?thesis unfolding leftovers_def[of st "xs @ [(a_time, a_text)]"] by simp
qed

lemma leftovers_props:
  "\<forall>e \<in> set xs. is_double (fst e) \<Longrightarrow>
   (\<forall>e \<in> set (leftovers st xs). e \<in> set xs \<and> py_int (fst e) \<notin> used_audio st) \<and>
   distinct (map (\<lambda>e. py_int (fst e)) (leftovers st xs))"
proof (induction xs rule: rev_induct)
  case Nil
  show ?case by (simp add: leftovers_def step2_def)
next
  case (snoc a xs)
  obtain a_time a_text where a: "a = (a_time, a_text)" by (cases a) auto
  from snoc.prems have dx: "\<forall>e \<in> set xs. is_double (fst e)" and da: "is_double a_time"
    by (simp_all add: a)
  note ih = snoc.IH[OF dx]
  show ?case
  proof (cases "py_int a_time \<notin> used_audio st \<and> a_text \<notin> seen_texts (step2 st xs)
         \<and> \<not> overlaps (merged st @ leftovers st xs) a_time")
    case True
    then have far: "\<forall>e \<in> set (leftovers st xs). \<not> \<bar>round_double (fst e - a_time)\<bar> < 2"
      by (auto simp: overlaps_def list_ex_iff)
    have "\<forall>e \<in> set (leftovers st xs). py_int (fst e) \<noteq> py_int a_time"
    proof
      fix e assume e: "e \<in> set (leftovers st xs)"
      with ih dx have "is_double (fst e)" by blast
      from same_second_close[OF this da] far e show "py_int (fst e) \<noteq> py_int a_time"
        by blast
    qed
    then have "py_int a_time \<notin> (\<lambda>e. py_int (fst e)) ` set (leftovers st xs)" by force
    with ih True show ?thesis unfolding a leftovers_snoc by auto
  next
    case False
    with ih show ?thesis unfolding a leftovers_snoc by auto
  qed
qed

lemma audio_dict_last:
  assumes "\<forall>e \<in> set post. py_int (fst e) \<noteq> py_int t"
  shows "audio_dict (pre @ (t, x) # post) (py_int t) = Some x"
proof -
  have keep: "foldl (\<lambda>d (timestamp, text). d(py_int timestamp \<mapsto> text)) d0 post (py_int t) = d0 (py_int t)"
    for d0 :: "int \<rightharpoonup> ustr"
    using assms by (induction post arbitrary: d0) (auto split: prod.splits)
  show ?thesis unfolding audio_dict_def by (simp add: keep)
qed

text \<open>
  C3 (as amended). For every audio entry whose integer second is still unconsumed when
  the leftover pass reaches it, if its text has not been emitted before and no entry
  emitted so far has a timestamp less than 2 seconds away from its timestamp,
  \<open>merge_subtitles\<close> emits that audio entry unchanged (same timestamp and text): it is
  appended to the emitted list, right after the entries emitted before it.
\<close>

theorem leftover_audio_entry_emitted:
  assumes "audio_subs = pre @ (a_time, a_text) # post"
    and "st = step2 (step1 (audio_dict audio_subs) video_subs) pre"
    and "py_int a_time \<notin> used_audio st"
    and "a_text \<notin> seen_texts st"
    and "\<not> overlaps (merged st) a_time"
  shows "\<exists>ys. emitted video_subs audio_subs = merged st @ (a_time, a_text) # ys"
proof -
  let ?st1 = "step1 (audio_dict audio_subs) video_subs"
  have "step2 ?st1 audio_subs = step2 (audio_step st (a_time, a_text)) post"
    unfolding assms(1) assms(2) by (simp add: step2_append step2_Cons)
  moreover have "merged (audio_step st (a_time, a_text)) = merged st @ [(a_time, a_text)]"
    using assms(3-5) by (simp add: audio_step_cases)
  moreover obtain ys where
    "merged (step2 (audio_step st (a_time, a_text)) post) = merged (audio_step st (a_time, a_text)) @ ys"
    using step2_extends by blast
  ultimately show ?thesis unfolding emitted_def by simp
qed

lemma leftover_example:
  "py_int 40 \<notin> used_audio (step2 (step1 (audio_dict ([] @ (40, ustr ''bar'') # [])) [(5, ustr ''foo'')]) []) \<and>
   ustr ''bar'' \<notin> seen_texts (step2 (step1 (audio_dict ([] @ (40, ustr ''bar'') # [])) [(5, ustr ''foo'')]) []) \<and>
   \<not> overlaps (merged (step2 (step1 (audio_dict ([] @ (40, ustr ''bar'') # [])) [(5, ustr ''foo'')]) [])) 40 \<and>
   merged (step2 (step1 (audio_dict ([] @ (40, ustr ''bar'') # [])) [(5, ustr ''foo'')]) []) = [(5, ustr ''foo'')]"
  by code_simp

theorem leftover_audio_entry_emitted_witness:
  "py_int 40 \<notin> used_audio (step2 (step1 (audio_dict ([] @ (40, ustr ''bar'') # [])) [(5, ustr ''foo'')]) []) \<and>
   ustr ''bar'' \<notin> seen_texts (step2 (step1 (audio_dict ([] @ (40, ustr ''bar'') # [])) [(5, ustr ''foo'')]) []) \<and>
   \<not> overlaps (merged (step2 (step1 (audio_dict ([] @ (40, ustr ''bar'') # [])) [(5, ustr ''foo'')]) [])) 40 \<and>
   (\<exists>ys. emitted [(5, ustr ''foo'')] ([] @ (40, ustr ''bar'') # [])
          = [(5, ustr ''foo'')] @ (40, ustr ''bar'') # ys)"
proof -
  note E = leftover_example
  from E have h1: "py_int 40 \<notin> used_audio (step2 (step1 (audio_dict ([] @ (40, ustr ''bar'') # [])) [(5, ustr ''foo'')]) [])"
    by blast
  from E have h2: "ustr ''bar'' \<notin> seen_texts (step2 (step1 (audio_dict ([] @ (40, ustr ''bar'') # [])) [(5, ustr ''foo'')]) [])"
    by blast
  from E have h3: "\<not> overlaps (merged (step2 (step1 (audio_dict ([] @ (40, ustr ''bar'') # [])) [(5, ustr ''foo'')]) [])) 40"
    by blast
  from E have m: "merged (step2 (step1 (audio_dict ([] @ (40, ustr ''bar'') # [])) [(5, ustr ''foo'')]) []) = [(5, ustr ''foo'')]"
    by blast
  from leftover_audio_entry_emitted[OF refl refl h1 h2 h3]
  have "\<exists>ys. emitted [(5, ustr ''foo'')] ([] @ (40, ustr ''bar'') # [])
          = [(5, ustr ''foo'')] @ (40, ustr ''bar'') # ys"
    unfolding m .
  with h1 h2 h3 show ?thesis by blast
qed

text \<open>
  C3, the counterexample to the claim as stated: with the video stream \<open>[(0, "hello")]\<close>
  and the audio stream \<open>[(100, "hello")]\<close> the audio entry is unconsumed after step 1 and
  no emitted entry lies within 2 seconds of it, yet it is not emitted, because its text was
  already emitted.
\<close>

theorem leftover_audio_entry_not_emitted:
  "py_int 100 \<notin> used_audio (step1 (audio_dict [(100, ustr ''hello'')]) [(0, ustr ''hello'')]) \<and>
   \<not> overlaps (merged (step1 (audio_dict [(100, ustr ''hello'')]) [(0, ustr ''hello'')])) 100 \<and>
   emitted [(0, ustr ''hello'')] [(100, ustr ''hello'')] = [(0, ustr ''hello'')] \<and>
   merge_subtitles [(0, ustr ''hello'')] [(100, ustr ''hello'')] = [(0, ustr ''hello'')]"
  by code_simp

subsection \<open>The seconds consumed by step 1\<close>

text \<open>
  The integer seconds whose dictionary text the loop over \<open>video_subs\<close> matches, in the
  order of the matches: \<open>match_of\<close> is the second matched by one video entry (none when
  \<open>if best_match:\<close> fails), \<open>matched_seconds\<close> follows the loop from a given state.
\<close>

definition match_of :: "(int \<rightharpoonup> ustr) \<Rightarrow> int set \<Rightarrow> sub \<Rightarrow> int list" where
  "match_of adict used v =
     (case find_match adict used v of
        Some (best_match, matched_time) \<Rightarrow> if best_match \<noteq> [] then [matched_time] else []
      | None \<Rightarrow> [])"

fun matched_seconds :: "(int \<rightharpoonup> ustr) \<Rightarrow> merge_state \<Rightarrow> sub list \<Rightarrow> int list" where
  "matched_seconds adict st [] = []"
| "matched_seconds adict st (v # vs) =
     match_of adict (used_audio st) v @ matched_seconds adict (video_step adict st v) vs"

lemma match_of_fresh: "k \<in> set (match_of adict used v) \<Longrightarrow> k \<notin> used"
proof -
  assume k: "k \<in> set (match_of adict used v)"
  obtain v_time v_text where v: "v = (v_time, v_text)" by (cases v) auto
  from k have "\<exists>a_text. find_match adict used (v_time, v_text) = Some (a_text, k)"
    unfolding match_of_def v
    by (cases "find_match adict used (v_time, v_text)") (auto split: if_splits)
  then obtain a_text where "find_match adict used (v_time, v_text) = Some (a_text, k)" ..
  from find_match_Some[OF this] show ?thesis by blast
qed

lemma match_of_distinct: "distinct (match_of adict used v)"
  by (auto simp: match_of_def split: option.splits)

lemma emit_used: "used_audio (emit e st) = used_audio st"
  by (simp add: emit_def)

lemma emit_merged: "set (merged (emit e st)) \<subseteq> insert e (set (merged st))"
  by (auto simp: emit_def)

lemma video_step_used:
  "used_audio (video_step adict st v) = used_audio st \<union> set (match_of adict (used_audio st) v)"
  by (cases v)
     (auto simp: video_step_def match_of_def emit_used Let_def split: option.splits)

lemma video_step_merged:
  assumes "(t, x) \<in> set (merged (video_step adict st v))"
  shows "(t, x) \<in> set (merged st) \<or> (t, x) = v \<or>
         (\<exists>k \<in> set (match_of adict (used_audio st) v). adict k = Some x)"
proof -
  obtain v_time v_text where v: "v = (v_time, v_text)" by (cases v) auto
  show ?thesis
  proof (cases "find_match adict (used_audio st) v")
    case None
    with assms emit_merged[of "(v_time, v_text)" st] show ?thesis
      by (auto simp: video_step_def v)
  next
    case (Some m)
    obtain a_text a_time where m: "m = (a_text, a_time)" by (cases m) auto
    from find_match_Some[OF Some[unfolded v m]] have d: "adict a_time = Some a_text" by blast
    show ?thesis
    proof (cases "a_text = []")
      case True
      with assms Some emit_merged[of "(v_time, v_text)" st] show ?thesis
        by (auto simp: video_step_def v m)
    next
      case False
      let ?st = "st\<lparr>used_audio := insert a_time (used_audio st)\<rparr>"
      let ?f = "if length a_text > length v_text then a_text else v_text"
      from assms Some False have "(t, x) \<in> set (merged (emit (v_time, ?f) ?st))"
        by (simp add: video_step_def v m Let_def)
      with emit_merged[of "(v_time, ?f)" ?st]
      have "(t, x) \<in> set (merged st) \<or> (t, x) = (v_time, ?f)" by auto
      moreover have "a_time \<in> set (match_of adict (used_audio st) v)"
        using Some False by (simp add: match_of_def m)
      ultimately show ?thesis using d v by (auto split: if_splits)
    qed
  qed
qed

lemma matched_seconds_props:
  "used_audio (foldl (video_step adict) st vs) = used_audio st \<union> set (matched_seconds adict st vs) \<and>
   distinct (matched_seconds adict st vs) \<and>
   set (matched_seconds adict st vs) \<inter> used_audio st = {} \<and>
   (\<forall>(t, x) \<in> set (merged (foldl (video_step adict) st vs)).
      (t, x) \<in> set (merged st) \<or> (t, x) \<in> set vs \<or>
      (\<exists>k \<in> set (matched_seconds adict st vs). adict k = Some x))"
proof (induction vs arbitrary: st)
  case Nil
  show ?case by simp
next
  case (Cons v vs)
  let ?st = "video_step adict st v"
  let ?m = "match_of adict (used_audio st) v"
  note ih = Cons.IH[of ?st]
  have fresh: "set ?m \<inter> used_audio st = {}" using match_of_fresh[of _ adict "used_audio st" v] by auto
  have u: "used_audio ?st = used_audio st \<union> set ?m" by (rule video_step_used)
  have 1: "used_audio (foldl (video_step adict) st (v # vs))
           = used_audio st \<union> set (matched_seconds adict st (v # vs))"
    using ih u by auto
  have 2: "distinct (matched_seconds adict st (v # vs))"
    using ih u match_of_distinct[of adict "used_audio st" v] by auto
  have 3: "set (matched_seconds adict st (v # vs)) \<inter> used_audio st = {}"
    using ih u fresh by auto
  have 4: "\<forall>(t, x) \<in> set (merged (foldl (video_step adict) st (v # vs))).
      (t, x) \<in> set (merged st) \<or> (t, x) \<in> set (v # vs) \<or>
      (\<exists>k \<in> set (matched_seconds adict st (v # vs)). adict k = Some x)"
  proof -
    have "(t, x) \<in> set (merged st) \<or> (t, x) \<in> set (v # vs) \<or>
      (\<exists>k \<in> set (matched_seconds adict st (v # vs)). adict k = Some x)"
      if h: "(t, x) \<in> set (merged (foldl (video_step adict) st (v # vs)))" for t x
    proof -
      from h have "(t, x) \<in> set (merged (foldl (video_step adict) ?st vs))" by simp
      with ih have "(t, x) \<in> set (merged ?st) \<or> (t, x) \<in> set vs \<or>
        (\<exists>k \<in> set (matched_seconds adict ?st vs). adict k = Some x)" by blast
      then show ?thesis
      proof (elim disjE)
        assume "(t, x) \<in> set (merged ?st)"
        from video_step_merged[OF this] show ?thesis by auto
      next
        assume "(t, x) \<in> set vs"
        then show ?thesis by simp
      next
        assume "\<exists>k \<in> set (matched_seconds adict ?st vs). adict k = Some x"
        then show ?thesis by auto
      qed
    qed
    then show ?thesis by blast
  qed
  from 1 2 3 4 show ?case by blast
qed

lemma dedup_loop_entries:
  "(t, x) \<in> set (dedup_loop xs seen acc) \<Longrightarrow>
   (t, x) \<in> set acc \<or> (\<exists>raw. (t, raw) \<in> set xs \<and> x = clean_text raw)"
proof (induction xs arbitrary: seen acc)
  case Nil
  then show ?case by simp
next
  case (Cons e xs)
  obtain time text0 where e: "e = (time, text0)" by (cases e) auto
  show ?case
  proof (cases "keeps seen text0")
    case True
    with Cons.prems have "(t, x) \<in> set (dedup_loop xs (insert (clean_text text0) seen)
                                  (acc @ [(time, clean_text text0)]))"
      by (simp add: e dedup_loop_Cons)
    from Cons.IH[OF this] show ?thesis by (auto simp: e)
  next
    case False
    with Cons.prems have "(t, x) \<in> set (dedup_loop xs seen acc)"
      by (simp add: e dedup_loop_Cons)
    from Cons.IH[OF this] show ?thesis by (auto simp: e)
  qed
qed

definition after_step1 :: "sub list \<Rightarrow> sub list \<Rightarrow> merge_state" where
  "after_step1 video_subs audio_subs = step1 (audio_dict audio_subs) video_subs"

definition consumed_seconds :: "sub list \<Rightarrow> sub list \<Rightarrow> int list" where
  "consumed_seconds video_subs audio_subs =
     matched_seconds (audio_dict audio_subs)
       \<lparr>merged = [], used_audio = {}, seen_texts = {}\<rparr> video_subs"

definition audio_leftovers :: "sub list \<Rightarrow> sub list \<Rightarrow> sub list" where
  "audio_leftovers video_subs audio_subs =
     leftovers (after_step1 video_subs audio_subs) audio_subs"

text \<open>
  C10. \<open>merge_subtitles\<close> keys audio entries by truncated integer second. Of several
  audio entries whose timestamps have the same integer part, the dictionary holds the text
  of the last one in input order, and a match of step 1 returns the dictionary's text of a
  second not yet consumed; an audio text enters the entries emitted by step 1 only as the
  text of such a match. Step 1 marks exactly the matched seconds consumed, and no second
  is matched twice. The leftover pass appends only audio entries whose integer second is
  not consumed, and no two entries it appends share an integer second. So every integer
  second supplies at most one audio text to the emitted entries, by a match or by a
  leftover, and every entry of the output is the cleaned form of an emitted entry. The
  timestamps of the audio entries are floats.
\<close>

theorem audio_keyed_by_integer_second:
  assumes "\<forall>e \<in> set audio_subs. is_double (fst e)"
  shows
  "(\<forall>pre t x post.
      audio_subs = pre @ (t, x) # post \<and> (\<forall>e \<in> set post. py_int (fst e) \<noteq> py_int t)
      \<longrightarrow> audio_dict audio_subs (py_int t) = Some x) \<and>
   (\<forall>used v_time v_text a_text a_time.
      find_match (audio_dict audio_subs) used (v_time, v_text) = Some (a_text, a_time)
      \<longrightarrow> audio_dict audio_subs a_time = Some a_text \<and> a_time \<notin> used) \<and>
   used_audio (after_step1 video_subs audio_subs) = set (consumed_seconds video_subs audio_subs) \<and>
   (\<forall>(t, x) \<in> set (merged (after_step1 video_subs audio_subs)).
      (t, x) \<in> set video_subs \<or>
      (\<exists>k \<in> set (consumed_seconds video_subs audio_subs). audio_dict audio_subs k = Some x)) \<and>
   (\<forall>e \<in> set (audio_leftovers video_subs audio_subs).
      e \<in> set audio_subs \<and> py_int (fst e) \<notin> set (consumed_seconds video_subs audio_subs)) \<and>
   distinct (consumed_seconds video_subs audio_subs @
             map (\<lambda>e. py_int (fst e)) (audio_leftovers video_subs audio_subs)) \<and>
   emitted video_subs audio_subs =
     merged (after_step1 video_subs audio_subs) @ audio_leftovers video_subs audio_subs \<and>
   (\<forall>(t, x) \<in> set (merge_subtitles video_subs audio_subs).
      \<exists>raw. (t, raw) \<in> set (emitted video_subs audio_subs) \<and> x = clean_text raw)"
proof -
  let ?adict = "audio_dict audio_subs"
  let ?init = "\<lparr>merged = [], used_audio = {}, seen_texts = {}\<rparr>"
  let ?st1 = "after_step1 video_subs audio_subs"
  let ?M = "consumed_seconds video_subs audio_subs"
  let ?L = "audio_leftovers video_subs audio_subs"
  have st1: "?st1 = foldl (video_step ?adict) ?init video_subs"
    by (simp add: after_step1_def step1_def)
  note P = matched_seconds_props[of ?adict ?init video_subs, folded st1 consumed_seconds_def]
  note Q = leftovers_props[OF assms, of ?st1, folded audio_leftovers_def]
  have c1: "\<forall>pre t x post.
      audio_subs = pre @ (t, x) # post \<and> (\<forall>e \<in> set post. py_int (fst e) \<noteq> py_int t)
      \<longrightarrow> audio_dict audio_subs (py_int t) = Some x"
    using audio_dict_last by blast
  have c2: "\<forall>used v_time v_text a_text a_time.
      find_match ?adict used (v_time, v_text) = Some (a_text, a_time)
      \<longrightarrow> ?adict a_time = Some a_text \<and> a_time \<notin> used"
    using find_match_Some by blast
  from P have c3: "used_audio ?st1 = set ?M" by simp
  from P have c4: "\<forall>(t, x) \<in> set (merged ?st1).
      (t, x) \<in> set video_subs \<or> (\<exists>k \<in> set ?M. ?adict k = Some x)" by simp
  from Q c3 have c5: "\<forall>e \<in> set ?L. e \<in> set audio_subs \<and> py_int (fst e) \<notin> set ?M"
    by simp
  from P have dM: "distinct ?M" by simp
  from Q have dL: "distinct (map (\<lambda>e. py_int (fst e)) ?L)" by simp
  from c5 have "set ?M \<inter> set (map (\<lambda>e. py_int (fst e)) ?L) = {}" by auto
  with dM dL have c6: "distinct (?M @ map (\<lambda>e. py_int (fst e)) ?L)" by simp
  have c7: "emitted video_subs audio_subs = merged ?st1 @ ?L"
    by (simp add: emitted_def merged_step2 audio_leftovers_def after_step1_def)
  have c8: "\<forall>(t, x) \<in> set (merge_subtitles video_subs audio_subs).
      \<exists>raw. (t, raw) \<in> set (emitted video_subs audio_subs) \<and> x = clean_text raw"
    using dedup_loop_entries[of _ _ "sort_key fst (emitted video_subs audio_subs)" "{}" "[]"]
    by (auto simp: merge_subtitles_def)
  from c1 c2 c3 c4 c5 c6 c7 c8 show ?thesis by (intro conjI)
qed

lemma keyed_example:
  "\<forall>e \<in> set [(21 / 4, ustr ''one''), (23 / 4, ustr ''two''), (73 / 8, ustr ''xx''), (19 / 2, ustr ''yy'')]. is_double (fst e)"
  "\<forall>e \<in> set [(73 / 8, ustr ''xx''), (19 / 2, ustr ''yy'')]. py_int (fst e) \<noteq> py_int (23 / 4)"
  "consumed_seconds [(5, ustr ''two''), (6, ustr ''twos'')] [(21 / 4, ustr ''one''), (23 / 4, ustr ''two''), (73 / 8, ustr ''xx''), (19 / 2, ustr ''yy'')] = [5]"
  "audio_leftovers [(5, ustr ''two''), (6, ustr ''twos'')] [(21 / 4, ustr ''one''), (23 / 4, ustr ''two''), (73 / 8, ustr ''xx''), (19 / 2, ustr ''yy'')] = [(73 / 8, ustr ''xx'')]"
  "merged (after_step1 [(5, ustr ''two''), (6, ustr ''twos'')] [(21 / 4, ustr ''one''), (23 / 4, ustr ''two''), (73 / 8, ustr ''xx''), (19 / 2, ustr ''yy'')]) = [(5, ustr ''two''), (6, ustr ''twos'')]"
  "merge_subtitles [(5, ustr ''two''), (6, ustr ''twos'')] [(21 / 4, ustr ''one''), (23 / 4, ustr ''two''), (73 / 8, ustr ''xx''), (19 / 2, ustr ''yy'')] = [(5, ustr ''two''), (73 / 8, ustr ''xx'')]"
  by code_simp+

theorem audio_keyed_by_integer_second_witness:
  "audio_dict [(21 / 4, ustr ''one''), (23 / 4, ustr ''two''), (73 / 8, ustr ''xx''), (19 / 2, ustr ''yy'')] (py_int (23 / 4)) = Some (ustr ''two'') \<and>
   used_audio (after_step1 [(5, ustr ''two''), (6, ustr ''twos'')] [(21 / 4, ustr ''one''), (23 / 4, ustr ''two''), (73 / 8, ustr ''xx''), (19 / 2, ustr ''yy'')]) = set [5] \<and>
   consumed_seconds [(5, ustr ''two''), (6, ustr ''twos'')] [(21 / 4, ustr ''one''), (23 / 4, ustr ''two''), (73 / 8, ustr ''xx''), (19 / 2, ustr ''yy'')] = [5] \<and>
   audio_leftovers [(5, ustr ''two''), (6, ustr ''twos'')] [(21 / 4, ustr ''one''), (23 / 4, ustr ''two''), (73 / 8, ustr ''xx''), (19 / 2, ustr ''yy'')] = [(73 / 8, ustr ''xx'')] \<and>
   distinct ([5] @ map (\<lambda>e. py_int (fst e)) [(73 / 8 :: rat, ustr ''xx'')]) \<and>
   emitted [(5, ustr ''two''), (6, ustr ''twos'')] [(21 / 4, ustr ''one''), (23 / 4, ustr ''two''), (73 / 8, ustr ''xx''), (19 / 2, ustr ''yy'')] = [(5, ustr ''two''), (6, ustr ''twos'')] @ [(73 / 8, ustr ''xx'')] \<and>
   merge_subtitles [(5, ustr ''two''), (6, ustr ''twos'')] [(21 / 4, ustr ''one''), (23 / 4, ustr ''two''), (73 / 8, ustr ''xx''), (19 / 2, ustr ''yy'')] = [(5, ustr ''two''), (73 / 8, ustr ''xx'')]"
proof -
  let ?A = "[(21 / 4, ustr ''one''), (23 / 4, ustr ''two''), (73 / 8, ustr ''xx''), (19 / 2, ustr ''yy'')]"
  let ?V = "[(5, ustr ''two''), (6, ustr ''twos'')]"
  note T = audio_keyed_by_integer_second[OF keyed_example(1), of ?V]
  have split: "?A = [(21 / 4, ustr ''one'')] @ (23 / 4, ustr ''two'') # [(73 / 8, ustr ''xx''), (19 / 2, ustr ''yy'')]"
    by simp
  have a: "audio_dict ?A (py_int (23 / 4)) = Some (ustr ''two'')"
    by (rule T[THEN conjunct1, rule_format, of "[(21 / 4, ustr ''one'')]" "23 / 4" "ustr ''two''"
               "[(73 / 8, ustr ''xx''), (19 / 2, ustr ''yy'')]"])
       (intro conjI split keyed_example(2))
  from T have "used_audio (after_step1 ?V ?A) = set (consumed_seconds ?V ?A)" by (elim conjE)
  then have b: "used_audio (after_step1 ?V ?A) = set [5]" unfolding keyed_example(3) .
  from T have "distinct (consumed_seconds ?V ?A @
             map (\<lambda>e. py_int (fst e)) (audio_leftovers ?V ?A))" by (elim conjE)
  then have c: "distinct ([5] @ map (\<lambda>e. py_int (fst e)) [(73 / 8 :: rat, ustr ''xx'')])"
    unfolding keyed_example(3,4) .
  from T have "emitted ?V ?A = merged (after_step1 ?V ?A) @ audio_leftovers ?V ?A"
    by (elim conjE)
  then have d: "emitted ?V ?A = [(5, ustr ''two''), (6, ustr ''twos'')] @ [(73 / 8, ustr ''xx'')]"
    unfolding keyed_example(4,5) .
  from a b keyed_example(3) keyed_example(4) c d keyed_example(6) show ?thesis by (intro conjI)
qed

section \<open>Properties of the text filter\<close>

lemma contains_iff_sublist: "contains sub s \<longleftrightarrow> sublist sub s"
  by (induction s) (simp_all add: sublist_Cons_right)

lemma strip_by_sublist: "sublist (strip_by P s) s"
proof -
  have "suffix (dropWhile P (rev (dropWhile P s))) (rev (dropWhile P s))"
    by (rule suffix_dropWhile)
  then have "prefix (strip_by P s) (dropWhile P s)"
    unfolding strip_by_def by (simp add: suffix_to_prefix)
  then have "sublist (strip_by P s) (dropWhile P s)" by (rule prefix_imp_sublist)
  moreover have "sublist (dropWhile P s) s"
    by (rule suffix_imp_sublist) (rule suffix_dropWhile)
  ultimately show ?thesis by (rule sublist_order.order.trans)
qed

lemma strip_by_id:
  assumes "s \<noteq> []" "\<not> P (hd s)" "\<not> P (last s)"
  shows "strip_by P s = s"
proof -
  from assms have "dropWhile P s = s" by (simp add: dropWhile_eq_self_iff)
  moreover from assms have "dropWhile P (rev s) = rev s"
    by (simp add: dropWhile_eq_self_iff hd_rev)
  ultimately show ?thesis by (simp add: strip_by_def)
qed

lemma strip_by_ends:
  assumes "strip_by P s \<noteq> []"
  shows "\<not> P (hd (strip_by P s)) \<and> \<not> P (last (strip_by P s))"
proof -
  let ?d = "dropWhile P s"
  let ?e = "dropWhile P (rev ?d)"
  from assms have ne: "?e \<noteq> []" by (simp add: strip_by_def)
  then have l: "\<not> P (hd ?e)" by (rule hd_dropWhile)
  have dne: "?d \<noteq> []"
  proof
    assume "?d = []"
    then have "?e = []" by (simp only: rev.simps dropWhile.simps)
    with ne show False by contradiction
  qed
  then have h: "\<not> P (hd ?d)" by (rule hd_dropWhile)
  have "suffix ?e (rev ?d)" by (rule suffix_dropWhile)
  then obtain zs where z: "rev ?d = zs @ ?e" by (auto simp: suffix_def)
  then have "?d = rev ?e @ rev zs" by (metis rev_append rev_rev_ident)
  moreover from ne have "rev ?e \<noteq> []" by (metis rev_is_Nil_conv)
  ultimately have "hd ?d = hd (rev ?e)" by (metis hd_append2)
  with h l ne show ?thesis by (simp add: strip_by_def last_rev hd_rev)
qed

lemma strip_by_idem: "strip_by P (strip_by P s) = strip_by P s"
proof (cases "strip_by P s = []")
  case True
  have "strip_by P [] = []" by (simp add: strip_by_def)
  then show ?thesis unfolding True .
next
  case False
  from strip_by_id[OF False] strip_by_ends[OF False] show ?thesis by blast
qed

lemma text_filter_stable:
  assumes "length (text_filter raw) > 1"
    and "hd (text_filter raw) \<noteq> 34" "hd (text_filter raw) \<noteq> 39"
    and "last (text_filter raw) \<noteq> 34" "last (text_filter raw) \<noteq> 39"
  shows "text_filter (text_filter raw) = text_filter raw"
proof -
  define text0 where "text0 = strip raw"
  define text1 where "text1 = strip_by (\<lambda>c. c = 39) (strip_by (\<lambda>c. c = 34) text0)"
  define r where "r = text_filter raw"
  from assms(1) have ne: "r \<noteq> []" by (auto simp: r_def)
  have nophrase: "\<not> list_ex (\<lambda>phrase. contains phrase text0) ignore_phrases"
    using ne unfolding r_def text_filter_def text0_def by (auto simp: Let_def split: if_splits)
  have short: "length text0 \<le> 50"
    using ne unfolding r_def text_filter_def text0_def by (auto simp: Let_def split: if_splits)
  have r: "r = strip text1"
    using ne unfolding r_def text_filter_def text0_def text1_def
    by (auto simp: Let_def split: if_splits)
  have "sublist r text1" unfolding r strip_def by (rule strip_by_sublist)
  moreover have "sublist text1 text0"
    unfolding text1_def
    by (rule sublist_order.order.trans[OF strip_by_sublist strip_by_sublist])
  ultimately have sub: "sublist r text0" by (rule sublist_order.order.trans)
  have s: "strip r = r" unfolding r strip_def by (rule strip_by_idem)
  have p: "\<not> list_ex (\<lambda>phrase. contains phrase r) ignore_phrases"
    using nophrase sub unfolding list_ex_iff contains_iff_sublist
    by (meson sublist_order.order.trans)
  have l: "\<not> length r > 50" using sublist_length_le[OF sub] short by simp
  have q: "strip_by (\<lambda>c. c = 39) (strip_by (\<lambda>c. c = 34) r) = r"
    using ne assms(2-5) unfolding r_def[symmetric] by (simp add: strip_by_id)
  have len: "length r > 1" using assms(1) by (simp add: r_def)
  have "text_filter r = r"
    using len by (simp add: text_filter_def[of r] Let_def s p l q ne)
  then show ?thesis by (simp add: r_def)
qed

lemma text_filter_empty: "text_filter [] = []"
  by (simp add: text_filter_def strip_def strip_by_def Let_def ignore_phrases_def)

text \<open>
  C8 (as amended). If the text filter rejects a string (yields the empty string), then
  filtering the empty result yields empty again. If it yields a result of at least 2
  characters that neither begins nor ends with a quote character (\<open>"\<close> or \<open>'\<close>),
  then filtering that result again returns it unchanged.
\<close>

theorem text_filter_idempotent_on_clean:
  "(text_filter raw = [] \<longrightarrow> text_filter (text_filter raw) = []) \<and>
   (length (text_filter raw) > 1 \<and>
    hd (text_filter raw) \<noteq> 34 \<and> hd (text_filter raw) \<noteq> 39 \<and>
    last (text_filter raw) \<noteq> 34 \<and> last (text_filter raw) \<noteq> 39
    \<longrightarrow> text_filter (text_filter raw) = text_filter raw)"
proof (intro conjI impI)
  assume "text_filter raw = []"
  then show "text_filter (text_filter raw) = []" by (simp add: text_filter_empty)
next
  assume "length (text_filter raw) > 1 \<and>
    hd (text_filter raw) \<noteq> 34 \<and> hd (text_filter raw) \<noteq> 39 \<and>
    last (text_filter raw) \<noteq> 34 \<and> last (text_filter raw) \<noteq> 39"
  then show "text_filter (text_filter raw) = text_filter raw"
    using text_filter_stable[of raw] by blast
qed

lemma text_filter_examples:
  "text_filter (ustr ''  hello world  '') = ustr ''hello world''"
  "text_filter [26377] = []"
  "length (ustr ''hello world'') > 1 \<and>
    hd (ustr ''hello world'') \<noteq> 34 \<and> hd (ustr ''hello world'') \<noteq> 39 \<and>
    last (ustr ''hello world'') \<noteq> 34 \<and> last (ustr ''hello world'') \<noteq> 39"
  by code_simp+

theorem text_filter_idempotent_on_clean_witness:
  "text_filter [26377] = [] \<and> text_filter (text_filter [26377]) = [] \<and>
   text_filter (ustr ''  hello world  '') = ustr ''hello world'' \<and>
   text_filter (text_filter (ustr ''  hello world  '')) = text_filter (ustr ''  hello world  '')"
proof -
  from text_filter_idempotent_on_clean[of "[26377]"] text_filter_examples(2)
  have a: "text_filter (text_filter [26377]) = []" by blast
  from text_filter_examples(1,3)
  have h: "length (text_filter (ustr ''  hello world  '')) > 1 \<and>
    hd (text_filter (ustr ''  hello world  '')) \<noteq> 34 \<and>
    hd (text_filter (ustr ''  hello world  '')) \<noteq> 39 \<and>
    last (text_filter (ustr ''  hello world  '')) \<noteq> 34 \<and>
    last (text_filter (ustr ''  hello world  '')) \<noteq> 39"
    by simp
  from text_filter_idempotent_on_clean[of "ustr ''  hello world  ''"] h
  have b: "text_filter (text_filter (ustr ''  hello world  '')) = text_filter (ustr ''  hello world  '')"
    by blast
  from text_filter_examples(2) a text_filter_examples(1) b show ?thesis by blast
qed

text \<open>
  C8, the counterexamples to idempotence. The answer \<open>'"ab"'\<close> (code points 39, 34,
  97, 98, 34, 39) is filtered to \<open>"ab"\<close>, quotes included, and filtering that gives
  \<open>ab\<close>. The answer \<open>"a "\<close> (34, 97, 32, 34) is filtered to the one-character text
  \<open>a\<close>, and filtering that gives the empty string.
\<close>

theorem text_filter_not_idempotent:
  "text_filter [39, 34, 97, 98, 34, 39] = [34, 97, 98, 34] \<and>
   text_filter (text_filter [39, 34, 97, 98, 34, 39]) = [97, 98] \<and>
   text_filter [34, 97, 32, 34] = [97] \<and>
   text_filter (text_filter [34, 97, 32, 34]) = []"
  by code_simp

section \<open>Properties of the retrying recognizer\<close>

lemma retrying_3:
  "retrying fn 3 sleeps = (fn 3, 3, sleeps)"
  by (subst retrying.simps) (simp add: stop_after_attempt_def split: sum.splits)

lemma retrying_2:
  "retrying fn 2 sleeps =
     (case fn 2 of Inr r \<Rightarrow> (Inr r, 2, sleeps) | Inl e \<Rightarrow> (fn 3, 3, sleeps @ [4]))"
proof -
  have s3: "retrying fn (2 + 1) (sleeps @ [4]) = retrying fn 3 (sleeps @ [4])"
    by (simp only: numeral_plus_one semiring_norm)
  have w: "wait_exponential 1 4 10 2 = 4" by (simp add: wait_exponential_def)
  show ?thesis
    by (subst retrying.simps)
       (simp only: s3 w retrying_3 stop_after_attempt_def, simp split: sum.splits)
qed

lemma retrying_1:
  "retrying fn 1 [] =
     (case fn 1 of Inr r \<Rightarrow> (Inr r, 1, [])
      | Inl e \<Rightarrow> (case fn 2 of Inr r \<Rightarrow> (Inr r, 2, [4]) | Inl e \<Rightarrow> (fn 3, 3, [4, 4])))"
proof -
  have s2: "retrying fn (1 + 1) [4] = retrying fn 2 [4]" by (simp only: one_add_one)
  have w: "wait_exponential 1 4 10 1 = 4" by (simp add: wait_exponential_def)
  show ?thesis
    by (subst retrying.simps)
       (simp only: s2 w retrying_2 stop_after_attempt_def append_Nil, simp split: sum.splits)
qed

text \<open>
  C6. For every frame, the retrying recognizer makes at least 1 and at most 3 attempts,
  sleeping between consecutive attempts for the exponential-backoff wait of the attempt
  just failed (clamped to between 4 and 10 seconds). If the first successful attempt is
  attempt \<open>i \<le> 3\<close>, its result is returned after exactly \<open>i\<close> attempts. If all 3
  attempts fail, exactly 3 attempts are made and the exception of the third attempt is
  raised to the caller as it is.
\<close>

theorem retrying_recognizer_three_attempts:
  "(case extract_text_from_frame responses of (outcome, attempts, sleeps) \<Rightarrow>
      1 \<le> attempts \<and> attempts \<le> 3 \<and>
      sleeps = map (wait_exponential 1 4 10) [1..<attempts] \<and>
      (\<forall>w \<in> set sleeps. 4 \<le> w \<and> w \<le> 10) \<and>
      outcome = attempt_frame (responses attempts) \<and>
      (\<forall>i < attempts. 1 \<le> i \<longrightarrow> isl (attempt_frame (responses i))) \<and>
      (isl outcome \<longrightarrow> attempts = 3))"
proof -
  have u: "[Suc 0..<2] = [1::nat]" "[Suc 0..<3] = [1::nat, 2]"
    by code_simp+
  have less3: "i < 3 \<longleftrightarrow> i = 0 \<or> i = 1 \<or> i = 2" for i :: nat by auto
  have less2: "i < 2 \<longleftrightarrow> i = 0 \<or> i = 1" for i :: nat by auto
  show ?thesis
    unfolding extract_text_from_frame_def retrying_1
    by (auto simp: u less3 less2 wait_exponential_def split: sum.splits)
qed

lemma retry_example:
  "extract_text_from_frame (\<lambda>n::nat. if n = 3 then Status200 (ustr ''hello'') else StatusOther (ustr ''503''))
     = (Inr (ustr ''hello''), 3, [4, 4])"
  by code_simp

theorem retrying_recognizer_three_attempts_witness:
  "extract_text_from_frame (\<lambda>n::nat. if n = 3 then Status200 (ustr ''hello'') else StatusOther (ustr ''503''))
     = (Inr (ustr ''hello''), 3, [4, 4]) \<and>
   Inr (ustr ''hello'') = attempt_frame ((\<lambda>n::nat. if n = 3 then Status200 (ustr ''hello'') else StatusOther (ustr ''503'')) 3) \<and>
   isl (attempt_frame ((\<lambda>n::nat. if n = 3 then Status200 (ustr ''hello'') else StatusOther (ustr ''503'')) 1)) \<and>
   isl (attempt_frame ((\<lambda>n::nat. if n = 3 then Status200 (ustr ''hello'') else StatusOther (ustr ''503'')) 2)) \<and>
   [4, 4] = map (wait_exponential 1 4 10) [1..<3]"
proof -
  let ?R = "(\<lambda>n::nat. if n = 3 then Status200 (ustr ''hello'') else StatusOther (ustr ''503''))"
  note T = retrying_recognizer_three_attempts[of ?R, unfolded retry_example prod.case]
  from T have a: "Inr (ustr ''hello'') = attempt_frame (?R 3)" by blast
  from T have b: "[4, 4] = map (wait_exponential 1 4 10) [1..<3]" by blast
  from T have c: "\<forall>i < 3. (1::nat) \<le> i \<longrightarrow> isl (attempt_frame (?R i))" by blast
  have "(1::nat) < 3" "(1::nat) \<le> 1" "(2::nat) < 3" "(1::nat) \<le> 2" by simp_all
  with c have d: "isl (attempt_frame (?R 1))" "isl (attempt_frame (?R 2))" by blast+
  from retry_example a d b show ?thesis by blast
qed

section \<open>Properties of the sampling loop\<close>

lemma sample_loop_append:
  "sample_loop env fps interval (xs @ ys) st =
     (case sample_loop env fps interval xs st of
        Inl e \<Rightarrow> Inl e
      | Inr st' \<Rightarrow> sample_loop env fps interval ys st')"
proof (induction xs arbitrary: st)
  case Nil
  show ?case by simp
next
  case (Cons x xs)
  obtain frame_count subtitles where st: "st = (frame_count, subtitles)" by (cases st) auto
  show ?case unfolding st
    by (simp add: Cons Let_def split: sum.splits)
qed

lemma sample_loop_not_raised:
  assumes "interval \<noteq> 0" "fps \<noteq> 0"
  shows "\<not> isl (sample_loop env fps interval frames st)"
proof (induction frames arbitrary: st)
  case Nil
  show ?case by simp
next
  case (Cons x xs)
  obtain frame_count subtitles where st: "st = (frame_count, subtitles)" by (cases st) auto
  show ?case unfolding st using assms
    by (simp add: Cons Let_def split: sum.splits)
qed

lemma sample_loop_total:
  assumes "interval \<noteq> 0" "fps \<noteq> 0"
  shows "\<exists>st'. sample_loop env fps interval frames st = Inr st'"
  using sample_loop_not_raised[OF assms, of env frames st]
  by (cases "sample_loop env fps interval frames st") auto

lemma sample_loop_skip:
  assumes "interval \<noteq> 0" "fps \<noteq> 0" "frame_count mod interval = 0"
    and "recognize env bad = Inl e"
  shows "sample_loop env fps interval (bad # post) (frame_count, subtitles)
         = sample_loop env fps interval post (frame_count, subtitles)"
  using assms by (simp add: Let_def)




section \<open>Claims about \<open>extract_subtitles\<close>\<close>


definition flaky_env :: "nat frame_env" where
  "flaky_env =
     \<lparr>width = \<lambda>f. 640, resize = \<lambda>f. f,
      service = \<lambda>f n. if f = 1 then StatusOther (ustr ''503'')
                         else Status200 (ustr ''caption'')\<rparr>"







text \<open>
  C7. If recognition of a sampled frame fails even after the retries, \<open>extract_subtitles\<close>
  skips that frame and continues with the remaining frames: the extraction does not raise
  (whenever the sampling interval in frames is not zero, so that frames are sampled at
  all), and its result is the result for the video without the bad frame.
\<close>

theorem failed_frame_is_skipped:
  assumes "py_int (round_double (of_int (py_int fps_prop) * interval_seconds)) \<noteq> 0"
  shows "\<not> isl (extract_subtitles env fps_prop frames interval_seconds) \<and>
     (\<forall>pre bad post frame_count subtitles.
        frames = pre @ bad # post \<and>
        sample_loop env (py_int fps_prop) (py_int (round_double (of_int (py_int fps_prop) * interval_seconds)))
          pre (0, []) = Inr (frame_count, subtitles) \<and>
        frame_count mod py_int (round_double (of_int (py_int fps_prop) * interval_seconds)) = 0 \<and>
        isl (recognize env bad)
        \<longrightarrow> extract_subtitles env fps_prop frames interval_seconds
            = extract_subtitles env fps_prop (pre @ post) interval_seconds)"
proof (intro conjI allI impI)
  let ?fps = "py_int fps_prop"
  let ?interval = "py_int (round_double (of_int ?fps * interval_seconds))"
  have f: "?fps \<noteq> 0"
  proof
    assume "?fps = 0"
    then have "?interval = 0" by (simp add: py_int_def round_double_0)
    with assms show False by contradiction
  qed
  from sample_loop_not_raised[OF assms f, of env frames "(0, [])"]
  show "\<not> isl (extract_subtitles env fps_prop frames interval_seconds)"
    by (cases "sample_loop env ?fps ?interval frames (0, [])")
       (simp_all add: extract_subtitles_def Let_def)
  fix pre bad post frame_count subtitles
  assume h: "frames = pre @ bad # post \<and>
        sample_loop env ?fps ?interval pre (0, []) = Inr (frame_count, subtitles) \<and>
        frame_count mod ?interval = 0 \<and> isl (recognize env bad)"
  then obtain e where e: "recognize env bad = Inl e" by (cases "recognize env bad") auto
  from h have m: "frame_count mod ?interval = 0" by blast
  from h have p: "sample_loop env ?fps ?interval pre (0, []) = Inr (frame_count, subtitles)"
    by blast
  have "sample_loop env ?fps ?interval (pre @ bad # post) (0, [])
        = sample_loop env ?fps ?interval (bad # post) (frame_count, subtitles)"
    by (simp add: sample_loop_append p del: sample_loop.simps)
  also have "\<dots> = sample_loop env ?fps ?interval post (frame_count, subtitles)"
    by (rule sample_loop_skip[OF assms f m e])
  also have "\<dots> = sample_loop env ?fps ?interval (pre @ post) (0, [])"
    by (simp add: sample_loop_append p del: sample_loop.simps)
  finally show "extract_subtitles env fps_prop frames interval_seconds
            = extract_subtitles env fps_prop (pre @ post) interval_seconds"
    using h by (simp add: extract_subtitles_def Let_def del: sample_loop.simps)
qed

lemma skipped_example:
  "py_int (round_double (of_int (py_int 1) * 1)) \<noteq> 0 \<and>
   sample_loop flaky_env (py_int 1) (py_int (round_double (of_int (py_int 1) * 1))) [0] (0, [])
     = Inr (1, [(0, ustr ''caption'')]) \<and>
   1 mod py_int (round_double (of_int (py_int 1) * 1)) = 0 \<and>
   isl (recognize flaky_env 1) \<and>
   extract_subtitles flaky_env 1 ([0] @ [2]) 1 = Inr [(0, ustr ''caption''), (1, ustr ''caption'')]"
  by code_simp

theorem failed_frame_is_skipped_witness:
  "py_int (round_double (of_int (py_int 1) * 1)) \<noteq> 0 \<and>
   isl (recognize flaky_env 1) \<and>
   \<not> isl (extract_subtitles flaky_env 1 ([0] @ 1 # [2]) 1) \<and>
   extract_subtitles flaky_env 1 ([0] @ 1 # [2]) 1 = Inr [(0, ustr ''caption''), (1, ustr ''caption'')]"
proof -
  let ?E = flaky_env
  from skipped_example have h0: "py_int (round_double (of_int (py_int 1) * 1)) \<noteq> 0" by (rule conjunct1)
  from skipped_example have bad: "isl (recognize ?E 1)" by blast
  from skipped_example
  have pre: "sample_loop ?E (py_int 1) (py_int (round_double (of_int (py_int 1) * 1))) [0] (0, [])
     = Inr (1, [(0, ustr ''caption'')])" by blast
  from skipped_example have m: "1 mod py_int (round_double (of_int (py_int 1) * 1)) = 0" by blast
  from skipped_example
  have r: "extract_subtitles ?E 1 ([0] @ [2]) 1 = Inr [(0, ustr ''caption''), (1, ustr ''caption'')]"
    by blast
  note T = failed_frame_is_skipped[OF h0, of ?E "[0] @ 1 # [2]"]
  from T have a: "\<not> isl (extract_subtitles ?E 1 ([0] @ 1 # [2]) 1)" by (rule conjunct1)
  have "extract_subtitles ?E 1 ([0] @ 1 # [2]) 1 = extract_subtitles ?E 1 ([0] @ [2]) 1"
    by (rule T[THEN conjunct2, rule_format, of "[0]" 1 "[2]" 1 "[(0, ustr ''caption'')]"])
       (intro conjI refl pre m bad)
  from this r have b: "extract_subtitles ?E 1 ([0] @ 1 # [2]) 1
      = Inr [(0, ustr ''caption''), (1, ustr ''caption'')]" by (rule trans)
  from h0 bad a b show ?thesis by blast
qed

section \<open>Properties of the pipeline\<close>

lemma split_on_no_sep: "sep \<notin> set s \<Longrightarrow> split_on sep cur s = [cur @ s]"
  by (induction s arbitrary: cur) auto

lemma parse_transcribe_error:
  assumes "10 \<notin> set (str_exc e)"
  shows "parse_audio_content pf (transcribe_audio (Inl e)) = []"
proof -
  have "10 \<notin> set (transcribe_error_prefix @ str_exc e)"
    using assms by (simp add: transcribe_error_prefix_def)
  then have "split_on 10 [] (transcribe_error_prefix @ str_exc e) = [transcribe_error_prefix @ str_exc e]"
    by (simp add: split_on_no_sep)
  moreover have "parse_audio_line pf (transcribe_error_prefix @ str_exc e) = None"
    by (simp add: parse_audio_line_def transcribe_error_prefix_def)
  ultimately show ?thesis
    by (simp add: parse_audio_content_def transcribe_audio_def List.map_filter_simps)
qed

section \<open>Claims about \<open>process_smart_subtitle\<close>\<close>

text \<open>
  Example runs on a one-frame video in which the service reads \<open>hello\<close>: in the first the
  audio extraction raises, in the second the transcription call raises.
\<close>

definition hello_env :: "nat frame_env" where
  "hello_env =
     \<lparr>width = \<lambda>f. 640, resize = \<lambda>f. f, service = \<lambda>f n. Status200 (ustr ''hello'')\<rparr>"

definition extraction_failed_run :: "nat run" where
  "extraction_failed_run =
     \<lparr>upload_outcome = Inr (), cv_env = hello_env, video_fps = 1, video_frames = [0],
      audio_extraction_outcome = Inl (Exception (ustr ''ffmpeg failed'')),
      transcription_outcome = Inr [], float_of_str = \<lambda>s. None\<rparr>"

definition transcription_failed_run :: "nat run" where
  "transcription_failed_run =
     \<lparr>upload_outcome = Inr (), cv_env = hello_env, video_fps = 1, video_frames = [0],
      audio_extraction_outcome = Inr (),
      transcription_outcome = Inl (Exception (ustr ''timeout'')), float_of_str = \<lambda>s. None\<rparr>"

text \<open>
  C4 (as amended). Let the upload be copied and the video subtitles be extracted without
  an exception. If the transcription_outcome fails inside \<open>transcribe_audio\<close>, the failure is
  caught there and returned as a message; when that message has no line break, no audio
  entry is parsed from it, and the merge proceeds with an empty audio stream, producing the
  output from the video stream alone. If the audio extraction fails, the exception is
  caught by the handler of \<open>process_smart_subtitle\<close>, and the request returns the error
  message built from it.
\<close>

theorem audio_branch_failure:
  assumes "upload_outcome r = Inr ()"
    and "extract_subtitles (cv_env r) (video_fps r) (video_frames r) 1 = Inr video_subtitles"
  shows "(audio_extraction_outcome r = Inr () \<and> transcription_outcome r = Inl e \<and> 10 \<notin> set (str_exc e)
          \<longrightarrow> process_smart_subtitle (Some r)
              = format_subtitles (merge_subtitles video_subtitles [])) \<and>
         (audio_extraction_outcome r = Inl e
          \<longrightarrow> process_smart_subtitle (Some r) = error_prefix @ str_exc e)"
proof (intro conjI impI)
  assume h: "audio_extraction_outcome r = Inr () \<and> transcription_outcome r = Inl e \<and> 10 \<notin> set (str_exc e)"
  then have "parse_audio_content (float_of_str r) (transcribe_audio (transcription_outcome r)) = []"
    by (simp add: parse_transcribe_error)
  with h assms show "process_smart_subtitle (Some r)
              = format_subtitles (merge_subtitles video_subtitles [])"
    by (simp add: process_smart_subtitle_def Let_def)
next
  assume "audio_extraction_outcome r = Inl e"
  with assms show "process_smart_subtitle (Some r) = error_prefix @ str_exc e"
    by (simp add: process_smart_subtitle_def)
qed

lemma run_video_example:
  "extract_subtitles hello_env 1 [0] 1 = Inr [(0, ustr ''hello'')]"
  by code_simp

lemma run_format_example:
  "format_subtitles (merge_subtitles [(0, ustr ''hello'')] []) = ustr ''[0s] hello''"
  by code_simp

lemma run_message_example: "10 \<notin> set (str_exc (Exception (ustr ''timeout'')))"
  by code_simp

theorem audio_branch_failure_witness:
  "extract_subtitles hello_env 1 [0] 1 = Inr [(0, ustr ''hello'')] \<and>
   10 \<notin> set (str_exc (Exception (ustr ''timeout''))) \<and>
   process_smart_subtitle (Some transcription_failed_run) = ustr ''[0s] hello'' \<and>
   process_smart_subtitle (Some extraction_failed_run) = error_prefix @ str_exc (Exception (ustr ''ffmpeg failed''))"
proof -
  let ?P1 = "extraction_failed_run"
  let ?P2 = "transcription_failed_run"
  note d = extraction_failed_run_def transcription_failed_run_def
  have u1: "upload_outcome ?P1 = Inr ()" and u2: "upload_outcome ?P2 = Inr ()"
    by (simp_all add: d)
  have v1: "extract_subtitles (cv_env ?P1) (video_fps ?P1) (video_frames ?P1) 1 = Inr [(0, ustr ''hello'')]"
    using run_video_example by (simp add: d)
  have v2: "extract_subtitles (cv_env ?P2) (video_fps ?P2) (video_frames ?P2) 1 = Inr [(0, ustr ''hello'')]"
    using run_video_example by (simp add: d)
  have a2: "audio_extraction_outcome ?P2 = Inr () \<and> transcription_outcome ?P2 = Inl (Exception (ustr ''timeout''))
            \<and> 10 \<notin> set (str_exc (Exception (ustr ''timeout'')))"
    using run_message_example by (simp add: d)
  have a1: "audio_extraction_outcome ?P1 = Inl (Exception (ustr ''ffmpeg failed''))"
    by (simp add: d)
  from audio_branch_failure[OF u2 v2, of "Exception (ustr ''timeout'')", THEN conjunct1, rule_format, OF a2]
  have b: "process_smart_subtitle (Some ?P2) = ustr ''[0s] hello''"
    unfolding run_format_example .
  from audio_branch_failure[OF u1 v1, of "Exception (ustr ''ffmpeg failed'')", THEN conjunct2, rule_format, OF a1]
  have c: "process_smart_subtitle (Some ?P1) = error_prefix @ str_exc (Exception (ustr ''ffmpeg failed''))" .
  from run_video_example run_message_example b c show ?thesis by (intro conjI)
qed

text \<open>
  C4, the counterexample to the claim as stated: the video stream gives the entry
  \<open>(0, "hello")\<close> and the audio extraction raises \<open>Exception("ffmpeg failed")\<close>. The
  request returns the error message and not \<open>"[0s] hello"\<close>, the output of the merge of
  the video stream with an empty audio stream.
\<close>

theorem audio_extraction_failure_fails_request:
  "extract_subtitles hello_env 1 [0] 1 = Inr [(0, ustr ''hello'')] \<and>
   format_subtitles (merge_subtitles [(0, ustr ''hello'')] []) = ustr ''[0s] hello'' \<and>
   process_smart_subtitle (Some extraction_failed_run) = error_prefix @ ustr ''ffmpeg failed'' \<and>
   process_smart_subtitle (Some extraction_failed_run) \<noteq> format_subtitles (merge_subtitles [(0, ustr ''hello'')] [])"
  by code_simp

end
